theory Spec2Isabelle
  imports Main "HOL-Library.Product_Lexorder"
begin

section \<open>Strings and the two library calls the splitter relies on\<close>

text \<open>
  Text is a list of characters; a character stands for a code point below 256.
  Python's slice \<open>s[i:j]\<close> with non-negative bounds is \<open>slice s i j\<close>: it clips at the end
  of the string and is empty when \<open>j \<le> i\<close>.
\<close>

abbreviation NL :: char where "NL \<equiv> CHR 0x0A"
abbreviation CR :: char where "CR \<equiv> CHR 0x0D"

definition slice :: "'a list \<Rightarrow> nat \<Rightarrow> nat \<Rightarrow> 'a list" where
  "slice s i j = take (j - i) (drop i s)"

text \<open>
  \<open>re.finditer(patt, s)\<close> belongs to the regular-expression library, not to the program.
  A compiled pattern is represented by its source text together with the function that
  gives, for a subject string, the successive matches as pairs \<open>(start, end)\<close>.
  What the library guarantees about that list is \<open>matches_ok\<close>: every match lies inside
  the string, and a match never starts before the previous one ended.
\<close>

type_synonym match = "nat \<times> nat"

record regex =
  source :: string
  finditer :: "string \<Rightarrow> match list"

fun matches_from :: "nat \<Rightarrow> nat \<Rightarrow> match list \<Rightarrow> bool" where
  "matches_from n pos [] = True"
| "matches_from n pos (m # ms) =
     (pos \<le> fst m \<and> fst m \<le> snd m \<and> snd m \<le> n \<and> matches_from n (snd m) ms)"

definition matches_ok :: "regex \<Rightarrow> string \<Rightarrow> bool" where
  "matches_ok patt s = matches_from (length s) 0 (finditer patt s)"

text \<open>The pattern \<open>\n\<close>: one match of width one at every newline character.\<close>

fun newline_matches :: "nat \<Rightarrow> string \<Rightarrow> match list" where
  "newline_matches pos [] = []"
| "newline_matches pos (ch # cs) =
     (if ch = NL then (pos, Suc pos) # newline_matches (Suc pos) cs
      else newline_matches (Suc pos) cs)"

definition newline_source :: string where
  "newline_source = [CHR 0x5C, CHR ''n'']"

definition newline_regex :: regex where
  "newline_regex = \<lparr>source = newline_source, finditer = newline_matches 0\<rparr>"

text \<open>The pattern \<open> \<close> (one blank), used for examples: one match at every blank.\<close>

fun blank_matches :: "nat \<Rightarrow> string \<Rightarrow> match list" where
  "blank_matches pos [] = []"
| "blank_matches pos (ch # cs) =
     (if ch = CHR '' '' then (pos, Suc pos) # blank_matches (Suc pos) cs
      else blank_matches (Suc pos) cs)"

definition blank_regex :: regex where
  "blank_regex = \<lparr>source = '' '', finditer = blank_matches 0\<rparr>"

text \<open>The empty pattern: a zero-width match at every position, the end included.\<close>

definition empty_regex :: regex where
  "empty_regex = \<lparr>source = [], finditer = (\<lambda>s. map (\<lambda>i. (i, i)) [0..<Suc (length s)])\<rparr>"

section \<open>\<open>isplit\<close>\<close>

text \<open>
  The generator is modelled by the list of the pieces it yields. At the head of the
  \<open>while nextm\<close> loop the state is the end of the current match \<open>m\<close> (0 for the
  \<open>FakeMatchObj\<close>) and the matches still to come, \<open>nextm\<close> first.
  \<open>skip_zero_width\<close> is the inner \<open>while\<close> loop that replaces a zero-width \<open>m\<close> by a
  following match starting at the same position.
\<close>

fun skip_zero_width :: "match \<Rightarrow> match list \<Rightarrow> match \<times> match list" where
  "skip_zero_width m [] = (m, [])"
| "skip_zero_width m (nextm # sepi) =
     (if fst m = snd m \<and> snd m = fst nextm then skip_zero_width nextm sepi
      else (m, nextm # sepi))"

lemma skip_zero_width_length:
  "skip_zero_width m sepi = (m', sepi') \<Longrightarrow> length sepi' \<le> length sepi"
  by (induction m sepi arbitrary: m' sepi' rule: skip_zero_width.induct)
     (fastforce split: if_splits)+

function isplit_loop :: "string \<Rightarrow> nat \<Rightarrow> match list \<Rightarrow> string list" where
  "isplit_loop s prev_end [] = [drop prev_end s]"
| "isplit_loop s prev_end (m # sepi) =
     (if fst m = snd m \<and> snd m = prev_end then isplit_loop s (snd m) sepi
      else (case skip_zero_width m sepi of (m', sepi') \<Rightarrow>
        slice s prev_end (fst m') #
          (if fst m' = length s then []
           else slice s (fst m') (snd m') # isplit_loop s (snd m') sepi')))"
  by pat_completeness auto
termination
  by (relation "measure (\<lambda>(s, prev_end, sepi). length sepi)")
     (auto simp: less_Suc_eq_le dest: skip_zero_width_length [OF sym])

definition isplit :: "regex \<Rightarrow> string \<Rightarrow> string list" where
  "isplit patt s = isplit_loop s 0 (finditer patt s)"

section \<open>Tokens and the Tokenizer\<close>

record Token =
  word :: string
  sep :: string
  idx :: int

text \<open>\<open>Token.__str__\<close>.\<close>

definition Token_str :: "Token \<Rightarrow> string" where
  "Token_str t = word t @ sep t"

text \<open>
  The function the source stores in the attribute \<open>Token.__nonzero__\<close>, namely
  \<open>bool(t.word or t.sep)\<close>; \<open>x or y\<close> is \<open>x\<close> if \<open>x\<close> is true and \<open>y\<close> otherwise.
\<close>

definition Token_nonzero :: "Token \<Rightarrow> bool" where
  "Token_nonzero t = ((if word t \<noteq> [] then word t else sep t) \<noteq> [])"

text \<open>
  The truth value of a token, as \<open>if tok:\<close>, \<open>tok and ...\<close> and \<open>tok or ...\<close> compute it.
  The module is written for Python 3 (\<open>int(len(splits) / 2)\<close>, \<open>list(map(...))\<close>,
  \<open>next(sepi, None)\<close>), where truth is decided by \<open>__bool__\<close> and, failing that, by
  \<open>__len__\<close>. A namedtuple defines no \<open>__bool__\<close>, and the attribute \<open>__nonzero__\<close> is
  never consulted, so a token is true exactly if the tuple is not empty; it has the three
  fields \<open>word\<close>, \<open>sep\<close> and \<open>idx\<close>.
\<close>

definition Token_len :: "Token \<Rightarrow> nat" where
  "Token_len t = length [length (word t), length (sep t), nat \<bar>idx t\<bar>]"

definition Token_bool :: "Token \<Rightarrow> bool" where
  "Token_bool t = (Token_len t \<noteq> 0)"

text \<open>Truth of a value that is either \<open>None\<close> or a token.\<close>

fun truthy :: "Token option \<Rightarrow> bool" where
  "truthy None = False"
| "truthy (Some t) = Token_bool t"

text \<open>\<open>splits[::2]\<close> is \<open>stride2 splits\<close> and \<open>splits[1::2]\<close> is \<open>stride2 (drop 1 splits)\<close>.\<close>

fun stride2 :: "'a list \<Rightarrow> 'a list" where
  "stride2 [] = []"
| "stride2 [x] = [x]"
| "stride2 (x # y # xs) = x # stride2 xs"

definition even_up :: "string list \<Rightarrow> string list" where
  "even_up splits =
     (if splits \<noteq> [] then (if last splits \<noteq> [] then splits @ [[]] else butlast splits)
      else splits)"

definition Tokenizer :: "string \<Rightarrow> regex \<Rightarrow> Token list" where
  "Tokenizer s boundary =
     (let splits = even_up (isplit boundary s)
      in map (\<lambda>(w, sp, i). \<lparr>word = w, sep = sp, idx = int i\<rparr>)
           (zip (stride2 splits) (zip (stride2 (drop 1 splits)) [0..<length splits div 2])))"

text \<open>
  \<open>Tokenizer.join\<close>. The two \<open>assert\<close> statements on the range and the integrity
  \<open>assert\<close> are branches that return the error; \<open>0 <= first\<close> holds for every natural
  number. \<open>last < first\<close> with \<open>last = limit - 1\<close> is \<open>limit \<le> first\<close>.
\<close>

datatype error = AssertionError | NoneToken | IndexError

definition join :: "Token list \<Rightarrow> nat \<Rightarrow> nat \<Rightarrow> error + Token option" where
  "join tokens first limit =
     (if \<not> first \<le> length tokens then Inl AssertionError
      else if \<not> (first \<le> limit \<and> limit \<le> length tokens) then Inl AssertionError
      else if limit \<le> first then Inr None
      else if limit - 1 = first then Inr (Some (tokens ! first))
      else if idx (tokens ! first) \<noteq> int first then Inl AssertionError
      else Inr (Some \<lparr>word = concat (map Token_str (slice tokens first (limit - 1)))
                            @ word (tokens ! (limit - 1)),
                     sep = sep (tokens ! (limit - 1)),
                     idx = int first\<rparr>))"

section \<open>The sequence matcher\<close>

text \<open>
  \<open>difflib.SequenceMatcher\<close> is the standard library's, used as
  \<open>SequenceMatcher(None, a, b)\<close>: no junk predicate, and the automatic junk heuristic on.
  The definitions follow \<open>__chain_b\<close>, \<open>find_longest_match\<close> and \<open>get_matching_blocks\<close>
  of that module. With \<open>isjunk = None\<close> the set \<open>bjunk\<close> stays empty, so the conjunct
  \<open>not isbjunk(...)\<close> of the first two extension loops is always true and the last two
  loops, which extend over junk only, never run.

  \<open>b2j\<close> maps an element of \<open>b\<close> to the increasing list of its positions; an element
  that occurs more than \<open>n // 100 + 1\<close> times in a \<open>b\<close> of \<open>n \<ge> 200\<close> elements is
  removed again. \<open>b2j_get b x\<close> is \<open>b2j.get(x, [])\<close>.
\<close>

definition b2j_indices :: "'a list \<Rightarrow> 'a \<Rightarrow> nat list" where
  "b2j_indices b elt = filter (\<lambda>j. b ! j = elt) [0..<length b]"

definition popular :: "'a list \<Rightarrow> 'a \<Rightarrow> bool" where
  "popular b elt = (length b \<ge> 200 \<and> length (b2j_indices b elt) > length b div 100 + 1)"

definition b2j :: "'a list \<Rightarrow> 'a \<Rightarrow> nat list option" where
  "b2j b elt =
     (let idxs = b2j_indices b elt
      in if idxs = [] \<or> popular b elt then None else Some idxs)"

definition b2j_get :: "'a list \<Rightarrow> 'a \<Rightarrow> nat list" where
  "b2j_get b elt = (case b2j b elt of None \<Rightarrow> [] | Some idxs \<Rightarrow> idxs)"

text \<open>\<open>j2len.get(j - 1, 0)\<close>; for \<open>j = 0\<close> the key is \<open>-1\<close>, which is never stored.\<close>

definition j2lenget :: "(nat \<rightharpoonup> nat) \<Rightarrow> nat \<Rightarrow> nat" where
  "j2lenget j2len j =
     (if j = 0 then 0 else (case j2len (j - 1) of None \<Rightarrow> 0 | Some k \<Rightarrow> k))"

text \<open>
  The inner \<open>for j in b2j.get(a[i], nothing)\<close> loop with its \<open>continue\<close> and \<open>break\<close>;
  the state is \<open>(newj2len, besti, bestj, bestsize)\<close>. \<open>i - k + 1\<close> is written
  \<open>i + 1 - k\<close>, the same number since \<open>k \<le> i + 1\<close>.
\<close>

fun flm_row :: "nat \<Rightarrow> nat \<Rightarrow> nat \<Rightarrow> (nat \<rightharpoonup> nat) \<Rightarrow> nat list \<Rightarrow>
    (nat \<rightharpoonup> nat) \<times> nat \<times> nat \<times> nat \<Rightarrow> (nat \<rightharpoonup> nat) \<times> nat \<times> nat \<times> nat" where
  "flm_row blo bhi i j2len [] st = st"
| "flm_row blo bhi i j2len (j # js) (newj2len, besti, bestj, bestsize) =
     (if j < blo then flm_row blo bhi i j2len js (newj2len, besti, bestj, bestsize)
      else if j \<ge> bhi then (newj2len, besti, bestj, bestsize)
      else (let k = j2lenget j2len j + 1 in
        if k > bestsize
        then flm_row blo bhi i j2len js (newj2len(j \<mapsto> k), i + 1 - k, j + 1 - k, k)
        else flm_row blo bhi i j2len js (newj2len(j \<mapsto> k), besti, bestj, bestsize)))"

text \<open>The outer \<open>for i in range(alo, ahi)\<close> loop.\<close>

fun flm_rows :: "'a list \<Rightarrow> 'a list \<Rightarrow> nat \<Rightarrow> nat \<Rightarrow> nat list \<Rightarrow>
    (nat \<rightharpoonup> nat) \<times> nat \<times> nat \<times> nat \<Rightarrow> nat \<times> nat \<times> nat" where
  "flm_rows a b blo bhi [] (j2len, best) = best"
| "flm_rows a b blo bhi (i # is) (j2len, best) =
     (case flm_row blo bhi i j2len (b2j_get b (a ! i)) (Map.empty, best) of
        (newj2len, best') \<Rightarrow> flm_rows a b blo bhi is (newj2len, best'))"

text \<open>The two extension loops over equal neighbours.\<close>

function extend_back :: "'a list \<Rightarrow> 'a list \<Rightarrow> nat \<Rightarrow> nat \<Rightarrow> nat \<times> nat \<times> nat \<Rightarrow> nat \<times> nat \<times> nat" where
  "extend_back a b alo blo (besti, bestj, bestsize) =
     (if besti > alo \<and> bestj > blo \<and> a ! (besti - 1) = b ! (bestj - 1)
      then extend_back a b alo blo (besti - 1, bestj - 1, bestsize + 1)
      else (besti, bestj, bestsize))"
  by pat_completeness auto
termination
  by (relation "measure (\<lambda>(a, b, alo, blo, besti, bestj, bestsize). besti)") auto

function extend_fwd :: "'a list \<Rightarrow> 'a list \<Rightarrow> nat \<Rightarrow> nat \<Rightarrow> nat \<times> nat \<times> nat \<Rightarrow> nat \<times> nat \<times> nat" where
  "extend_fwd a b ahi bhi (besti, bestj, bestsize) =
     (if besti + bestsize < ahi \<and> bestj + bestsize < bhi
         \<and> a ! (besti + bestsize) = b ! (bestj + bestsize)
      then extend_fwd a b ahi bhi (besti, bestj, bestsize + 1)
      else (besti, bestj, bestsize))"
  by pat_completeness auto
termination
  by (relation "measure (\<lambda>(a, b, ahi, bhi, besti, bestj, bestsize). ahi - (besti + bestsize))") auto

declare extend_back.simps [simp del] extend_fwd.simps [simp del]

definition find_longest_match :: "'a list \<Rightarrow> 'a list \<Rightarrow> nat \<Rightarrow> nat \<Rightarrow> nat \<Rightarrow> nat \<Rightarrow> nat \<times> nat \<times> nat" where
  "find_longest_match a b alo ahi blo bhi =
     extend_fwd a b ahi bhi
       (extend_back a b alo blo
         (flm_rows a b blo bhi [alo..<ahi] (Map.empty, alo, blo, 0)))"

text \<open>
  Bounds on the result of \<open>find_longest_match\<close>, needed for the termination of the
  loop of \<open>get_matching_blocks\<close>. \<open>prev_ok\<close> bounds the entries of the row \<open>j2len\<close>
  left by the rows before \<open>i\<close>; \<open>best_ok\<close> says where the best block lies.
\<close>
definition prev_ok :: "nat \<Rightarrow> nat \<Rightarrow> nat \<Rightarrow> nat \<Rightarrow> (nat \<rightharpoonup> nat) \<Rightarrow> bool" where
  "prev_ok alo blo bhi i m = (\<forall>j k. m j = Some k \<longrightarrow> k \<le> i - alo \<and> k \<le> j + 1 - blo \<and> blo \<le> j \<and> j < bhi)"

fun best_ok :: "nat \<Rightarrow> nat \<Rightarrow> nat \<Rightarrow> nat \<Rightarrow> nat \<times> nat \<times> nat \<Rightarrow> bool" where
  "best_ok alo blo lim bhi (bi, bj, bs) =
     (alo \<le> bi \<and> blo \<le> bj \<and>
      (if bs = 0 then bi = alo \<and> bj = blo else bi + bs \<le> lim \<and> bj + bs \<le> bhi))"

lemma j2lenget_le:
  "prev_ok alo blo bhi i m \<Longrightarrow> blo \<le> j \<Longrightarrow> alo \<le> i \<Longrightarrow>
   j2lenget m j + 1 \<le> Suc i - alo \<and> j2lenget m j + 1 \<le> j + 1 - blo"
  unfolding prev_ok_def j2lenget_def
  by (cases "j = 0"; cases "m (j - 1)") (auto, force+)

lemma flm_row_ok:
  "flm_row blo bhi i m js (nw, best) = (nw', best') \<Longrightarrow> prev_ok alo blo bhi i m \<Longrightarrow> alo \<le> i \<Longrightarrow>
   prev_ok alo blo bhi (Suc i) nw \<Longrightarrow> best_ok alo blo (Suc i) bhi best \<Longrightarrow>
   prev_ok alo blo bhi (Suc i) nw' \<and> best_ok alo blo (Suc i) bhi best'"
proof (induction js arbitrary: nw best)
  case Nil
  then show ?case by simp
next
  case (Cons j js)
  obtain bi bj bs where best: "best = (bi, bj, bs)" by (cases best)
  show ?case
  proof (cases "j < blo")
    case True
    with Cons best show ?thesis by simp
  next
    case lo: False
    show ?thesis
    proof (cases "j \<ge> bhi")
      case True
      with Cons lo best show ?thesis by simp
    next
      case hi: False
      define k where "k = j2lenget m j + 1"
      from j2lenget_le [OF Cons.prems(2) _ Cons.prems(3), of j] lo
      have k: "k \<le> Suc i - alo" "k \<le> j + 1 - blo" "0 < k" by (simp_all add: k_def)
      have nw: "prev_ok alo blo bhi (Suc i) (nw(j \<mapsto> k))"
        using Cons.prems(4) k lo hi unfolding prev_ok_def by auto
      show ?thesis
      proof (cases "k > bs")
        case True
        have bk: "best_ok alo blo (Suc i) bhi (i + 1 - k, j + 1 - k, k)"
          using k lo hi Cons.prems(3) by auto
        from Cons.prems(1) best lo hi True
        have "flm_row blo bhi i m js (nw(j \<mapsto> k), i + 1 - k, j + 1 - k, k) = (nw', best')"
          by (simp add: Let_def k_def del: fun_upd_apply)
        from Cons.IH [OF this Cons.prems(2,3) nw bk] show ?thesis .
      next
        case False
        from Cons.prems(1) best lo hi False
        have "flm_row blo bhi i m js (nw(j \<mapsto> k), best) = (nw', best')"
          by (simp add: Let_def k_def del: fun_upd_apply)
        from Cons.IH [OF this Cons.prems(2,3) nw Cons.prems(5)] show ?thesis .
      qed
    qed
  qed
qed

lemma best_ok_mono: "best_ok alo blo t bhi best \<Longrightarrow> t \<le> t' \<Longrightarrow> best_ok alo blo t' bhi best"
  by (cases best) auto

lemma flm_rows_ok:
  "prev_ok alo blo bhi i0 m \<Longrightarrow> alo \<le> i0 \<Longrightarrow> i0 \<le> ahi \<Longrightarrow> best_ok alo blo i0 bhi best \<Longrightarrow>
   best_ok alo blo ahi bhi (flm_rows a b blo bhi [i0..<ahi] (m, best))"
proof (induction "ahi - i0" arbitrary: i0 m best)
  case 0
  then show ?case by simp
next
  case (Suc n)
  then have lt: "i0 < ahi" by simp
  obtain nw' best' where row:
    "flm_row blo bhi i0 m (b2j_get b (a ! i0)) (Map.empty, best) = (nw', best')"
    by (cases "flm_row blo bhi i0 m (b2j_get b (a ! i0)) (Map.empty, best)")
  have "prev_ok alo blo bhi (Suc i0) Map.empty" by (simp add: prev_ok_def)
  from flm_row_ok [OF row Suc.prems(1,2) this best_ok_mono [OF Suc.prems(4)]]
  have ok: "prev_ok alo blo bhi (Suc i0) nw'" "best_ok alo blo (Suc i0) bhi best'" by simp_all
  have "best_ok alo blo ahi bhi (flm_rows a b blo bhi [Suc i0..<ahi] (nw', best'))"
    using Suc.hyps(1) [of "Suc i0", OF _ ok(1) _ _ ok(2)] Suc.hyps(2) Suc.prems(2) lt by simp
  with lt row show ?case by (simp add: upt_conv_Cons)
qed

lemma extend_back_ok:
  "best_ok alo blo t bhi best \<Longrightarrow> best_ok alo blo t bhi (extend_back a b alo blo best)"
proof (induction a b alo blo best rule: extend_back.induct)
  case (1 a b alo blo besti bestj bestsize)
  show ?case
  proof (cases "besti > alo \<and> bestj > blo \<and> a ! (besti - 1) = b ! (bestj - 1)")
    case True
    have "best_ok alo blo t bhi (besti - 1, bestj - 1, bestsize + 1)"
      using True "1.prems" by (cases "bestsize = 0") auto
    from "1.IH" [OF True this] True show ?thesis
      by (subst extend_back.simps) simp
  next
    case False
    with "1.prems" show ?thesis by (subst extend_back.simps) auto
  qed
qed

lemma extend_fwd_ok:
  "best_ok alo blo ahi bhi best \<Longrightarrow> best_ok alo blo ahi bhi (extend_fwd a b ahi bhi best)"
proof (induction a b ahi bhi best rule: extend_fwd.induct)
  case (1 a b ahi bhi besti bestj bestsize)
  show ?case
  proof (cases "besti + bestsize < ahi \<and> bestj + bestsize < bhi
         \<and> a ! (besti + bestsize) = b ! (bestj + bestsize)")
    case True
    have "best_ok alo blo ahi bhi (besti, bestj, bestsize + 1)"
      using True "1.prems" by auto
    from "1.IH" [OF True this] True show ?thesis
      by (subst extend_fwd.simps) simp
  next
    case False
    with "1.prems" show ?thesis by (subst extend_fwd.simps) auto
  qed
qed

lemma find_longest_match_ok:
  "best_ok alo blo ahi bhi (find_longest_match a b alo ahi blo bhi)"
proof (cases "alo \<le> ahi")
  case True
  have "best_ok alo blo ahi bhi (flm_rows a b blo bhi [alo..<ahi] (Map.empty, alo, blo, 0))"
    by (rule flm_rows_ok) (simp_all add: prev_ok_def True)
  then show ?thesis unfolding find_longest_match_def
    by (intro extend_fwd_ok extend_back_ok)
next
  case False
  have "best_ok alo blo ahi bhi (flm_rows a b blo bhi [alo..<ahi] (Map.empty, alo, blo, 0))"
    using False by simp
  then show ?thesis unfolding find_longest_match_def
    by (intro extend_fwd_ok extend_back_ok)
qed

lemma find_longest_match_bounds:
  "find_longest_match a b alo ahi blo bhi = (i, j, k) \<Longrightarrow>
   alo \<le> i \<and> blo \<le> j \<and> (k \<noteq> 0 \<longrightarrow> i + k \<le> ahi \<and> j + k \<le> bhi)"
  using find_longest_match_ok [of alo blo ahi bhi a b] by (simp split: if_splits)

text \<open>
  The \<open>while queue\<close> loop. The Python list \<open>queue\<close> is used as a stack: \<open>pop()\<close> takes
  the last element and \<open>append\<close> adds one at the end; here the head of the list is the top.
\<close>

function mb_loop :: "'a list \<Rightarrow> 'a list \<Rightarrow> (nat \<times> nat \<times> nat \<times> nat) list \<Rightarrow>
    (nat \<times> nat \<times> nat) list \<Rightarrow> (nat \<times> nat \<times> nat) list" where
  "mb_loop a b [] matching_blocks = matching_blocks"
| "mb_loop a b ((alo, ahi, blo, bhi) # queue) matching_blocks =
     (case find_longest_match a b alo ahi blo bhi of (i, j, k) \<Rightarrow>
        if k \<noteq> 0
        then mb_loop a b
               ((if i + k < ahi \<and> j + k < bhi then [(i + k, ahi, j + k, bhi)] else [])
                 @ (if alo < i \<and> blo < j then [(alo, i, blo, j)] else []) @ queue)
               (matching_blocks @ [(i, j, k)])
        else mb_loop a b queue matching_blocks)"
  by pat_completeness auto
termination
proof (relation "measure (\<lambda>(a, b, queue, mbs).
          sum_list (map (\<lambda>(alo, ahi, blo, bhi). 2 * (ahi - alo) + 1) queue))", goal_cases)
  case 1
  then show ?case by simp
next
  case (2 a b alo ahi blo bhi queue matching_blocks i jk j k)
  then have "find_longest_match a b alo ahi blo bhi = (i, j, k)" by simp
  from find_longest_match_bounds [OF this] 2
  have "alo \<le> i" "i + k \<le> ahi" "k \<noteq> 0" by simp_all
  then show ?case by auto
next
  case 3
  then show ?case by simp
qed

declare mb_loop.simps [simp del]

text \<open>
  The pass that merges adjacent blocks; \<open>(i1, j1, k1)\<close> is the block being grown.
\<close>

fun collapse :: "nat \<times> nat \<times> nat \<Rightarrow> (nat \<times> nat \<times> nat) list \<Rightarrow> (nat \<times> nat \<times> nat) list" where
  "collapse (i1, j1, k1) [] = (if k1 \<noteq> 0 then [(i1, j1, k1)] else [])"
| "collapse (i1, j1, k1) ((i2, j2, k2) # rest) =
     (if i1 + k1 = i2 \<and> j1 + k1 = j2 then collapse (i1, j1, k1 + k2) rest
      else (if k1 \<noteq> 0 then [(i1, j1, k1)] else []) @ collapse (i2, j2, k2) rest)"

text \<open>
  \<open>matching_blocks.sort()\<close> orders the triples lexicographically, which is the order of
  nested pairs.
\<close>

definition get_matching_blocks :: "'a list \<Rightarrow> 'a list \<Rightarrow> (nat \<times> nat \<times> nat) list" where
  "get_matching_blocks a b =
     collapse (0, 0, 0) (sort (mb_loop a b [(0, length a, 0, length b)] []))
       @ [(length a, length b, 0)]"

subsection \<open>The contract of \<open>get_matching_blocks\<close>\<close>

text \<open>
  What \<open>get_matching_blocks\<close> promises, for sequences of lengths \<open>la\<close> and \<open>lb\<close>: the
  triples increase in \<open>i\<close> and in \<open>j\<close> without overlap, the last one is the dummy
  \<open>(la, lb, 0)\<close> and the only one of length zero, and a block never starts exactly where
  the block before it ended in both sequences. \<open>(ci, cj)\<close> is where the block before
  ended, and \<open>first\<close> says that there is none.
\<close>

fun mbs_ok :: "nat \<Rightarrow> nat \<Rightarrow> bool \<Rightarrow> nat \<Rightarrow> nat \<Rightarrow> (nat \<times> nat \<times> nat) list \<Rightarrow> bool" where
  "mbs_ok la lb first ci cj [] = False"
| "mbs_ok la lb first ci cj [(i, j, n)] = (i = la \<and> j = lb \<and> n = 0 \<and> ci \<le> la \<and> cj \<le> lb)"
| "mbs_ok la lb first ci cj ((i, j, n) # m # ms) =
     (ci \<le> i \<and> cj \<le> j \<and> (first \<or> ci < i \<or> cj < j) \<and> 0 < n \<and> i + n \<le> la \<and> j + n \<le> lb
      \<and> mbs_ok la lb False (i + n) (j + n) (m # ms))"

text \<open>
  The proof that the model keeps the promise. A queue entry and a block are rectangles
  of index pairs; throughout the loop any two of them lie one wholly before the other.
\<close>

type_synonym rect = "nat \<times> nat \<times> nat \<times> nat"

fun rprec :: "rect \<Rightarrow> rect \<Rightarrow> bool" where
  "rprec (alo1, ahi1, blo1, bhi1) (alo2, ahi2, blo2, bhi2) = (ahi1 \<le> alo2 \<and> bhi1 \<le> blo2)"

definition sepr :: "rect \<Rightarrow> rect \<Rightarrow> bool" where
  "sepr r1 r2 = (rprec r1 r2 \<or> rprec r2 r1)"

fun rect_of :: "nat \<times> nat \<times> nat \<Rightarrow> rect" where
  "rect_of (i, j, k) = (i, i + k, j, j + k)"

fun inside :: "rect \<Rightarrow> rect \<Rightarrow> bool" where
  "inside (alo1, ahi1, blo1, bhi1) (alo2, ahi2, blo2, bhi2) =
     (alo2 \<le> alo1 \<and> ahi1 \<le> ahi2 \<and> blo2 \<le> blo1 \<and> bhi1 \<le> bhi2)"

lemma sepr_sym: "sepr r1 r2 \<Longrightarrow> sepr r2 r1"
  by (auto simp: sepr_def)

lemma sepr_inside: "sepr R X \<Longrightarrow> inside r R \<Longrightarrow> sepr r X"
  by (cases R; cases X; cases r) (auto simp: sepr_def)

lemma inside_trans: "inside r R \<Longrightarrow> inside R S \<Longrightarrow> inside r S"
  by (cases R; cases S; cases r) auto

lemma mb_loop_inv:
  "sorted_wrt sepr (queue @ map rect_of mbs) \<Longrightarrow>
   \<forall>q\<in>set queue. inside q (0, la, 0, lb) \<Longrightarrow>
   \<forall>x\<in>set mbs. 0 < snd (snd x) \<and> inside (rect_of x) (0, la, 0, lb) \<Longrightarrow>
   sorted_wrt sepr (map rect_of (mb_loop a b queue mbs))
   \<and> (\<forall>x\<in>set (mb_loop a b queue mbs). 0 < snd (snd x) \<and> inside (rect_of x) (0, la, 0, lb))"
proof (induction a b queue mbs rule: mb_loop.induct)
  case (1 a b matching_blocks)
  then show ?case by (simp add: mb_loop.simps(1))
next
  case (2 a b alo ahi blo bhi queue mbs)
  obtain i j k where flm: "find_longest_match a b alo ahi blo bhi = (i, j, k)"
    by (cases "find_longest_match a b alo ahi blo bhi")
  note bnd = find_longest_match_bounds [OF flm]
  let ?R = "(alo, ahi, blo, bhi)"
  show ?case
  proof (cases "k = 0")
    case True
    from "2.prems" have pq: "sorted_wrt sepr (queue @ map rect_of mbs)"
      "\<forall>q\<in>set queue. inside q (0, la, 0, lb)" by simp_all
    have k0: "\<not> k \<noteq> 0" using True by simp
    have eq: "mb_loop a b (?R # queue) mbs = mb_loop a b queue mbs"
      using flm True by (subst mb_loop.simps) simp
    from "2.IH"(2) [OF flm [symmetric] refl k0 pq "2.prems"(3)]
    show ?thesis unfolding eq .
  next
    case False
    let ?B = "(i, j, k)"
    let ?new = "(if i + k < ahi \<and> j + k < bhi then [(i + k, ahi, j + k, bhi)] else [])
                 @ (if alo < i \<and> blo < j then [(alo, i, blo, j)] else [])"
    from bnd False have b: "alo \<le> i" "blo \<le> j" "i + k \<le> ahi" "j + k \<le> bhi" "0 < k" by simp_all
    have inR: "\<forall>n\<in>set ?new. inside n ?R" "inside (rect_of ?B) ?R" using b by auto
    from "2.prems"(1) have rest: "sorted_wrt sepr (queue @ map rect_of mbs)"
      and Rsep: "\<forall>x\<in>set (queue @ map rect_of mbs). sepr ?R x" by simp_all
    have new_rest: "\<forall>n\<in>set ?new. \<forall>x\<in>set (queue @ map rect_of mbs). sepr n x"
      using Rsep inR(1) sepr_inside by blast
    have B_rest: "\<forall>x\<in>set (queue @ map rect_of mbs). sepr x (rect_of ?B)"
      using Rsep inR(2) sepr_inside sepr_sym by blast
    have new_B: "\<forall>n\<in>set ?new. sepr n (rect_of ?B)" using b by (auto simp: sepr_def)
    have new_new: "sorted_wrt sepr ?new" using b by (auto simp: sepr_def)
    have s: "sorted_wrt sepr ((?new @ queue) @ map rect_of (mbs @ [?B]))"
      using rest new_rest B_rest new_B new_new
      by (simp add: sorted_wrt_append ball_Un)
    have Rin: "inside ?R (0, la, 0, lb)" using "2.prems"(2) by simp
    have q: "\<forall>q\<in>set (?new @ queue). inside q (0, la, 0, lb)"
    proof
      fix q assume "q \<in> set (?new @ queue)"
      then consider "q \<in> set ?new" | "q \<in> set queue" by auto
      then show "inside q (0, la, 0, lb)"
      proof cases
        case 1
        with inR(1) have "inside q ?R" by blast
        then show ?thesis using Rin by (rule inside_trans)
      next
        case 2
        with "2.prems"(2) show ?thesis by simp
      qed
    qed
    have "inside (rect_of ?B) (0, la, 0, lb)" using inR(2) Rin by (rule inside_trans)
    then have m: "\<forall>x\<in>set (mbs @ [?B]). 0 < snd (snd x) \<and> inside (rect_of x) (0, la, 0, lb)"
      using "2.prems"(3) b(5) by simp
    have eq: "mb_loop a b (?R # queue) mbs = mb_loop a b (?new @ queue) (mbs @ [?B])"
      using flm False by (subst mb_loop.simps) simp
    let ?Q = "(if i + k < ahi \<and> j + k < bhi then [(i + k, ahi, j + k, bhi)] else [])
                 @ (if alo < i \<and> blo < j then [(alo, i, blo, j)] else []) @ queue"
    have Q: "?new @ queue = ?Q" by simp
    from "2.IH"(1) [OF flm [symmetric] refl False s [unfolded Q] q [unfolded Q] m]
    show ?thesis unfolding eq Q .
  qed
qed


lemma sorted_wrt_insort_sym:
  assumes sym: "\<And>u v. R u v \<Longrightarrow> R v u"
  shows "sorted_wrt R xs \<Longrightarrow> \<forall>y\<in>set xs. R x y \<Longrightarrow> sorted_wrt R (insort x xs)"
proof (induction xs)
  case Nil
  then show ?case by simp
next
  case (Cons y ys)
  then show ?case using sym by (auto simp: set_insort_key)
qed

lemma sorted_wrt_sort_sym:
  assumes sym: "\<And>u v. R u v \<Longrightarrow> R v u"
  shows "sorted_wrt R xs \<Longrightarrow> sorted_wrt R (sort xs)"
proof (induction xs)
  case Nil
  then show ?case by simp
next
  case (Cons x xs)
  then have "sorted_wrt R (sort xs)" "\<forall>y\<in>set (sort xs). R x y" by simp_all
  then show ?case using sorted_wrt_insort_sym [of R, OF sym] by (simp add: sort_key_simps)
qed

fun chain_from :: "nat \<Rightarrow> nat \<Rightarrow> nat \<Rightarrow> nat \<Rightarrow> (nat \<times> nat \<times> nat) list \<Rightarrow> bool" where
  "chain_from la lb ci cj [] = True"
| "chain_from la lb ci cj ((i, j, k) # rest) =
     (ci \<le> i \<and> cj \<le> j \<and> 0 < k \<and> i + k \<le> la \<and> j + k \<le> lb
      \<and> chain_from la lb (i + k) (j + k) rest)"

lemma chain_from_sorted:
  "sorted xs \<Longrightarrow> sorted_wrt sepr (map rect_of xs) \<Longrightarrow>
   \<forall>x\<in>set xs. 0 < snd (snd x) \<and> inside (rect_of x) (0, la, 0, lb)
      \<and> ci \<le> fst x \<and> cj \<le> fst (snd x) \<Longrightarrow>
   chain_from la lb ci cj xs"
proof (induction xs arbitrary: ci cj)
  case Nil
  then show ?case by simp
next
  case (Cons x xs)
  obtain i j k where x: "x = (i, j, k)" by (cases x)
  have "\<forall>y\<in>set xs. i + k \<le> fst y \<and> j + k \<le> fst (snd y)"
  proof
    fix y assume y: "y \<in> set xs"
    obtain i' j' k' where y': "y = (i', j', k')" by (cases y)
    from Cons.prems(1) y have "x \<le> y" by simp
    then have le: "i \<le> i'" unfolding x y' by (auto simp: less_eq_prod_def)
    from Cons.prems(2) y have "sepr (rect_of x) (rect_of y)" by simp
    moreover from Cons.prems(3) y have "0 < k'" unfolding y' by fastforce
    ultimately show "i + k \<le> fst y \<and> j + k \<le> fst (snd y)"
      using le unfolding x y' by (auto simp: sepr_def)
  qed
  with Cons.prems have "chain_from la lb (i + k) (j + k) xs"
    by (intro Cons.IH) auto
  with Cons.prems(3) show ?case unfolding x by simp
qed

lemma mbs_ok_Cons:
  "ys \<noteq> [] \<Longrightarrow> mbs_ok la lb first ci cj ((i, j, n) # ys) =
     (ci \<le> i \<and> cj \<le> j \<and> (first \<or> ci < i \<or> cj < j) \<and> 0 < n \<and> i + n \<le> la \<and> j + n \<le> lb
      \<and> mbs_ok la lb False (i + n) (j + n) ys)"
  by (cases ys) simp_all

lemma collapse_ok:
  "chain_from la lb (i1 + k1) (j1 + k1) rest \<Longrightarrow> ci \<le> i1 \<Longrightarrow> cj \<le> j1 \<Longrightarrow>
   i1 + k1 \<le> la \<Longrightarrow> j1 + k1 \<le> lb \<Longrightarrow> first \<or> (0 < k1 \<and> (ci < i1 \<or> cj < j1)) \<Longrightarrow>
   mbs_ok la lb first ci cj (collapse (i1, j1, k1) rest @ [(la, lb, 0)])"
proof (induction rest arbitrary: i1 j1 k1 ci cj first)
  case Nil
  then show ?case by auto
next
  case (Cons x rest)
  obtain i2 j2 k2 where x: "x = (i2, j2, k2)" by (cases x)
  from Cons.prems(1) have c: "i1 + k1 \<le> i2" "j1 + k1 \<le> j2" "0 < k2" "i2 + k2 \<le> la" "j2 + k2 \<le> lb"
    "chain_from la lb (i2 + k2) (j2 + k2) rest" unfolding x by simp_all
  show ?case
  proof (cases "i1 + k1 = i2 \<and> j1 + k1 = j2")
    case True
    then have e: "i2 = i1 + k1" "j2 = j1 + k1" by simp_all
    have "mbs_ok la lb first ci cj (collapse (i1, j1, k1 + k2) rest @ [(la, lb, 0)])"
    proof (rule Cons.IH)
      show "chain_from la lb (i1 + (k1 + k2)) (j1 + (k1 + k2)) rest"
        using c(6) unfolding e by (simp add: add.assoc)
      show "first \<or> (0 < k1 + k2 \<and> (ci < i1 \<or> cj < j1))"
        using Cons.prems(6) by auto
      show "i1 + (k1 + k2) \<le> la" "j1 + (k1 + k2) \<le> lb" using c(4,5) unfolding e by simp_all
    qed (use Cons.prems in simp_all)
    with True show ?thesis unfolding x by simp
  next
    case False
    have tl: "collapse (i2, j2, k2) rest @ [(la, lb, 0)] \<noteq> []" by simp
    show ?thesis
    proof (cases "k1 = 0")
      case True
      with Cons.prems(6) have f: first by simp
      have "mbs_ok la lb first ci cj (collapse (i2, j2, k2) rest @ [(la, lb, 0)])"
      proof (rule Cons.IH)
        show "chain_from la lb (i2 + k2) (j2 + k2) rest" by (rule c(6))
        show "ci \<le> i2" "cj \<le> j2" using Cons.prems(2,3) c(1,2) by simp_all
        show "first \<or> (0 < k2 \<and> (ci < i2 \<or> cj < j2))" using f by simp
      qed (rule c(4) c(5))+
      moreover have "collapse (i1, j1, k1) (x # rest) = collapse (i2, j2, k2) rest"
        using True unfolding x by (simp add: if_not_P [OF False])
      ultimately show ?thesis by simp
    next
      case k1: False
      have "mbs_ok la lb False (i1 + k1) (j1 + k1) (collapse (i2, j2, k2) rest @ [(la, lb, 0)])"
      proof (rule Cons.IH)
        show "chain_from la lb (i2 + k2) (j2 + k2) rest" by (rule c(6))
        show "i1 + k1 \<le> i2" "j1 + k1 \<le> j2" by (rule c(1) c(2))+
        show "False \<or> (0 < k2 \<and> (i1 + k1 < i2 \<or> j1 + k1 < j2))"
          using False c(1,2,3) by auto
      qed (rule c(4) c(5))+
      moreover have "collapse (i1, j1, k1) (x # rest) = (i1, j1, k1) # collapse (i2, j2, k2) rest"
        using k1 unfolding x by (simp add: if_not_P [OF False])
      ultimately show ?thesis
        using Cons.prems(2-6) k1 by (simp add: mbs_ok_Cons [OF tl])
    qed
  qed
qed

lemma mb_loop_result:
  "sorted_wrt sepr (map rect_of (mb_loop a b [(0, length a, 0, length b)] []))
   \<and> (\<forall>x\<in>set (mb_loop a b [(0, length a, 0, length b)] []).
         0 < snd (snd x) \<and> inside (rect_of x) (0, length a, 0, length b))"
  by (rule mb_loop_inv) simp_all

lemma get_matching_blocks_ok:
  "mbs_ok (length a) (length b) True 0 0 (get_matching_blocks a b)"
proof -
  let ?m = "mb_loop a b [(0, length a, 0, length b)] []"
  from mb_loop_result [of a b]
  have s: "sorted_wrt sepr (map rect_of ?m)"
    and r: "\<forall>x\<in>set ?m. 0 < snd (snd x) \<and> inside (rect_of x) (0, length a, 0, length b)"
    by simp_all
  have "sorted_wrt (\<lambda>u v. sepr (rect_of u) (rect_of v)) (sort ?m)"
    using s by (intro sorted_wrt_sort_sym) (auto simp: sorted_wrt_map dest: sepr_sym)
  then have "sorted_wrt sepr (map rect_of (sort ?m))" by (simp add: sorted_wrt_map)
  then have "chain_from (length a) (length b) 0 0 (sort ?m)"
    using r by (intro chain_from_sorted) simp_all
  then have "mbs_ok (length a) (length b) True 0 0
      (collapse (0, 0, 0) (sort ?m) @ [(length a, length b, 0)])"
    by (intro collapse_ok) simp_all
  then show ?thesis by (simp add: get_matching_blocks_def)
qed

subsection \<open>The matcher on two equal sequences\<close>

text \<open>
  On equal sequences the matcher finds the whole sequence as one block, also when the
  popularity heuristic has removed elements from \<open>b2j\<close>. \<open>run a i\<close> is the number of
  elements directly before position \<open>i\<close> that are not popular; the best block of the
  first phase of \<open>find_longest_match\<close> stays on the diagonal, from where the extension
  loops reach both ends.
\<close>

fun run :: "'a list \<Rightarrow> nat \<Rightarrow> nat" where
  "run a 0 = 0"
| "run a (Suc i) = (if popular a (a ! i) then 0 else Suc (run a i))"

lemma run_le: "run a i \<le> i"
  by (induction i) auto

definition getd :: "(nat \<rightharpoonup> nat) \<Rightarrow> nat \<Rightarrow> nat" where
  "getd m j = (case m j of None \<Rightarrow> 0 | Some k \<Rightarrow> k)"

definition prev_inv :: "'a list \<Rightarrow> nat \<Rightarrow> (nat \<rightharpoonup> nat) \<Rightarrow> bool" where
  "prev_inv a i m =
     ((\<forall>j k. m j = Some k \<longrightarrow> k \<le> run a (Suc j) \<and> k \<le> run a i)
      \<and> (0 < i \<longrightarrow> getd m (i - 1) = run a i))"

fun row_inv :: "'a list \<Rightarrow> nat \<Rightarrow> nat list \<Rightarrow> (nat \<rightharpoonup> nat) \<times> nat \<times> nat \<times> nat \<Rightarrow> bool" where
  "row_inv a i js (nw, bi, bj, bs) =
     (bi = bj \<and> bi + bs \<le> Suc i \<and> (\<forall>i'<i. run a (Suc i') \<le> bs)
      \<and> (i \<in> set js \<or> (run a (Suc i) \<le> bs \<and> getd nw i = run a (Suc i)))
      \<and> (\<forall>j k. nw j = Some k \<longrightarrow> k \<le> run a (Suc j) \<and> k \<le> run a (Suc i)))"

lemma j2lenget_prev:
  assumes "prev_inv a i m"
  shows "j2lenget m j \<le> run a j" "j2lenget m j \<le> run a i" "j2lenget m i = run a i"
proof -
  show "j2lenget m j \<le> run a j" "j2lenget m j \<le> run a i"
    using assms unfolding prev_inv_def j2lenget_def
    by (cases j; cases "m (j - 1)"; fastforce)+
  show "j2lenget m i = run a i"
    using assms unfolding prev_inv_def j2lenget_def getd_def
    by (cases i) auto
qed

lemma flm_row_diag:
  assumes p: "prev_inv a i m"
  shows "row_inv a i js st \<Longrightarrow> sorted_wrt (<) js \<Longrightarrow>
     \<forall>j\<in>set js. a ! j = a ! i \<and> j < n \<Longrightarrow> \<not> popular a (a ! i) \<or> js = [] \<Longrightarrow>
     row_inv a i [] (flm_row 0 n i m js st)"
proof (induction js arbitrary: st)
  case Nil
  then show ?case by simp
next
  case (Cons j js)
  obtain nw bi bj bs where st: "st = (nw, bi, bj, bs)" by (cases st)
  define k where "k = j2lenget m j + 1"
  from Cons.prems(3,4) have aj: "a ! j = a ! i" "j < n" "\<not> popular a (a ! i)" by simp_all
  have kj: "k \<le> run a (Suc j)" and ki: "k \<le> run a (Suc i)"
    using j2lenget_prev(1,2) [OF p, of j] aj by (simp_all add: k_def)
  have kd: "j = i \<Longrightarrow> k = run a (Suc i)"
    using j2lenget_prev(3) [OF p] aj by (simp add: k_def)
  from Cons.prems(1) have inv: "bi = bj" "bi + bs \<le> Suc i" "\<forall>i'<i. run a (Suc i') \<le> bs"
    "i \<in> set (j # js) \<or> (run a (Suc i) \<le> bs \<and> getd nw i = run a (Suc i))"
    "\<forall>j k. nw j = Some k \<longrightarrow> k \<le> run a (Suc j) \<and> k \<le> run a (Suc i)"
    unfolding st by simp_all
  from Cons.prems(2) have srt: "sorted_wrt (<) js" "\<forall>j'\<in>set js. j < j'" by simp_all
  have rest: "\<forall>j\<in>set js. a ! j = a ! i \<and> j < n" "\<not> popular a (a ! i) \<or> js = []"
    using Cons.prems(3) aj(3) by simp_all
  have nw4: "\<forall>j' k'. (nw(j \<mapsto> k)) j' = Some k' \<longrightarrow> k' \<le> run a (Suc j') \<and> k' \<le> run a (Suc i)"
    using inv(5) kj ki by auto
  show ?case
  proof (cases "k > bs")
    case True
    have ji: "j = i"
    proof (rule ccontr)
      assume ne: "j \<noteq> i"
      show False
      proof (cases "j < i")
        case True
        with inv(3) kj \<open>k > bs\<close> show False by fastforce
      next
        case False
        with ne have "i < j" by simp
        with srt(2) have "i \<notin> set (j # js)" by auto
        with inv(4) ki \<open>k > bs\<close> show False by simp
      qed
    qed
    have "row_inv a i js (nw(j \<mapsto> k), i + 1 - k, j + 1 - k, k)"
      using ji kd ki inv(3) True nw4 run_le [of a "Suc i"] by (auto simp: getd_def)
    from Cons.IH [OF this srt(1) rest]
    show ?thesis unfolding st using True aj(2) by (simp add: k_def Let_def del: fun_upd_apply)
  next
    case False
    have g3: "i \<in> set js \<or> (run a (Suc i) \<le> bs \<and> getd (nw(j \<mapsto> k)) i = run a (Suc i))"
    proof (cases "j = i")
      case True
      with kd False show ?thesis by (simp add: getd_def)
    next
      case ne: False
      with inv(4) show ?thesis by (auto simp: getd_def)
    qed
    have "row_inv a i js (nw(j \<mapsto> k), bi, bj, bs)"
      using inv(1,2,3) g3 nw4 by simp
    from Cons.IH [OF this srt(1) rest]
    show ?thesis unfolding st using False aj(2) by (simp add: k_def Let_def del: fun_upd_apply)
  qed
qed


lemma b2j_get_self:
  assumes "i < length a"
  shows "sorted_wrt (<) (b2j_get a (a ! i))"
    and "\<forall>j\<in>set (b2j_get a (a ! i)). a ! j = a ! i \<and> j < length a"
    and "\<not> popular a (a ! i) \<or> b2j_get a (a ! i) = []"
    and "popular a (a ! i) \<or> i \<in> set (b2j_get a (a ! i))"
proof -
  have s: "sorted_wrt (<) (b2j_indices a (a ! i))"
    unfolding b2j_indices_def by (rule sorted_wrt_filter) simp
  have m: "i \<in> set (b2j_indices a (a ! i))" using assms by (simp add: b2j_indices_def)
  then have ne: "b2j_indices a (a ! i) \<noteq> []" by auto
  have g: "b2j_get a (a ! i) = (if popular a (a ! i) then [] else b2j_indices a (a ! i))"
    using ne by (simp add: b2j_get_def b2j_def Let_def)
  show "sorted_wrt (<) (b2j_get a (a ! i))" using s by (simp add: g)
  show "\<forall>j\<in>set (b2j_get a (a ! i)). a ! j = a ! i \<and> j < length a"
    by (simp add: g b2j_indices_def)
  show "\<not> popular a (a ! i) \<or> b2j_get a (a ! i) = []" by (simp add: g)
  show "popular a (a ! i) \<or> i \<in> set (b2j_get a (a ! i))" using m by (simp add: g)
qed

lemma flm_rows_diag:
  "prev_inv a i0 m \<Longrightarrow> bi = bj \<Longrightarrow> bi + bs \<le> i0 \<Longrightarrow> \<forall>i'<i0. run a (Suc i') \<le> bs \<Longrightarrow>
   i0 \<le> length a \<Longrightarrow>
   flm_rows a a 0 (length a) [i0..<length a] (m, bi, bj, bs) = (ri, rj, rs) \<Longrightarrow>
   ri = rj \<and> ri + rs \<le> length a"
proof (induction "length a - i0" arbitrary: i0 m bi bj bs)
  case 0
  then show ?case by simp
next
  case (Suc d)
  then have lt: "i0 < length a" by simp
  let ?js = "b2j_get a (a ! i0)"
  note js = b2j_get_self [OF lt]
  obtain nw' bi' bj' bs' where row:
    "flm_row 0 (length a) i0 m ?js (Map.empty, bi, bj, bs) = (nw', bi', bj', bs')"
    by (cases "flm_row 0 (length a) i0 m ?js (Map.empty, bi, bj, bs)") auto
  have "row_inv a i0 ?js (Map.empty, bi, bj, bs)"
    using Suc.prems(2,3,4) js(4) by (auto simp: getd_def)
  from flm_row_diag [OF Suc.prems(1) this js(1,2,3)] row
  have r: "row_inv a i0 [] (nw', bi', bj', bs')" by simp
  then have p: "prev_inv a (Suc i0) nw'" by (simp add: prev_inv_def)
  have b: "bi' = bj'" "bi' + bs' \<le> Suc i0" "\<forall>i'<Suc i0. run a (Suc i') \<le> bs'"
    using r by (auto simp: less_Suc_eq)
  have "flm_rows a a 0 (length a) [Suc i0..<length a] (nw', bi', bj', bs') = (ri, rj, rs)"
    using Suc.prems(6) lt row by (simp add: upt_conv_Cons)
  moreover have "d = length a - Suc i0" "Suc i0 \<le> length a" using Suc.hyps(2) lt by simp_all
  ultimately show ?case using Suc.hyps(1) [OF _ p b] by blast
qed

lemma extend_back_diag: "extend_back a a 0 0 (bi, bi, bs) = (0, 0, bs + bi)"
proof (induction bi arbitrary: bs)
  case 0
  then show ?case by (subst extend_back.simps) simp
next
  case (Suc bi)
  then show ?case by (subst extend_back.simps) simp
qed

lemma extend_fwd_diag: "k \<le> n \<Longrightarrow> extend_fwd a a n n (0, 0, k) = (0, 0, n)"
proof (induction "n - k" arbitrary: k)
  case 0
  then show ?case by (subst extend_fwd.simps) simp
next
  case (Suc d)
  then have "extend_fwd a a n n (0, 0, k) = extend_fwd a a n n (0, 0, k + 1)"
    by (subst extend_fwd.simps) simp
  with Suc show ?case by simp
qed

lemma find_longest_match_self:
  "find_longest_match a a 0 (length a) 0 (length a) = (0, 0, length a)"
proof -
  obtain ri rj rs where r:
    "flm_rows a a 0 (length a) [0..<length a] (Map.empty, 0, 0, 0) = (ri, rj, rs)"
    by (cases "flm_rows a a 0 (length a) [0..<length a] (Map.empty, 0, 0, 0)") auto
  have "prev_inv a 0 Map.empty" by (simp add: prev_inv_def)
  from flm_rows_diag [OF this _ _ _ _ r] have d: "ri = rj" "ri + rs \<le> length a" by simp_all
  then have "rs + rj \<le> length a" by simp
  then show ?thesis
    unfolding find_longest_match_def r d(1) extend_back_diag
    by (rule extend_fwd_diag)
qed

lemma get_matching_blocks_self:
  "get_matching_blocks a a =
     (if a = [] then [(0, 0, 0)] else [(0, 0, length a), (length a, length a, 0)])"
proof -
  have "mb_loop a a [(0, length a, 0, length a)] [] = (if a = [] then [] else [(0, 0, length a)])"
    by (subst mb_loop.simps) (simp add: find_longest_match_self mb_loop.simps(1))
  then show ?thesis by (simp add: get_matching_blocks_def)
qed

section \<open>The Differ\<close>

datatype op_kind = Op_c | Op_l | Op_r | Op_d

record Delta =
  op :: op_kind
  lhs :: Token
  rhs :: Token

text \<open>
  \<open>str.lower\<close> on code points below 256: the upper-case letters are \<open>A\<close> to \<open>Z\<close> and
  \<open>0xC0\<close> to \<open>0xDE\<close> without the multiplication sign \<open>0xD7\<close>.
\<close>

definition lower_char :: "char \<Rightarrow> char" where
  "lower_char ch =
     (let n = (of_char ch :: nat)
      in if (65 \<le> n \<and> n \<le> 90) \<or> (192 \<le> n \<and> n \<le> 222 \<and> n \<noteq> 215)
         then char_of (n + 32) else ch)"

definition str_lower :: "string \<Rightarrow> string" where
  "str_lower s = map lower_char s"

text \<open>
  A \<open>Differ\<close> holds the two token lists and the matcher, which is determined by its two
  sequences \<open>seqm_a\<close> and \<open>seqm_b\<close>.
\<close>

record Differ =
  atoks :: "Token list"
  btoks :: "Token list"
  seqm_a :: "string list"
  seqm_b :: "string list"

definition Differ_init :: "string \<Rightarrow> string \<Rightarrow> regex \<Rightarrow> bool \<Rightarrow> Differ" where
  "Differ_init a b boundary ignore_case =
     (let lower = (if ignore_case then str_lower else (\<lambda>s. s))
      in \<lparr>atoks = Tokenizer a boundary,
          btoks = Tokenizer b boundary,
          seqm_a = map (\<lambda>t. lower (word t)) (Tokenizer a boundary),
          seqm_b = map (\<lambda>t. lower (word t)) (Tokenizer b boundary)\<rparr>)"

definition err_bind :: "error + 'a \<Rightarrow> ('a \<Rightarrow> error + 'b) \<Rightarrow> error + 'b" where
  "err_bind m f = (case m of Inl e \<Rightarrow> Inl e | Inr x \<Rightarrow> f x)"

lemma err_bind_cong [fundef_cong]:
  "m = m' \<Longrightarrow> (\<And>x. m' = Inr x \<Longrightarrow> f x = f' x) \<Longrightarrow> err_bind m f = err_bind m' f'"
  by (simp add: err_bind_def split: sum.splits)

text \<open>
  \<open>op = "d" if lhs and rhs else "l" if lhs else "r" if rhs else None\<close>, and
  \<open>x or Tokenizer.Token("", "", n)\<close>.
\<close>

definition classify :: "Token option \<Rightarrow> Token option \<Rightarrow> op_kind option" where
  "classify l r =
     (if truthy l \<and> truthy r then Some Op_d
      else if truthy l then Some Op_l
      else if truthy r then Some Op_r
      else None)"

definition or_token :: "Token option \<Rightarrow> int \<Rightarrow> Token" where
  "or_token x n =
     (case x of
        None \<Rightarrow> \<lparr>word = [], sep = [], idx = n\<rparr>
      | Some t \<Rightarrow> if Token_bool t then t else \<lparr>word = [], sep = [], idx = n\<rparr>)"

text \<open>
  The common block is built from two joins over a range of \<open>n > 0\<close> tokens, which never
  give \<open>None\<close>; the model keeps that case as the error \<open>NoneToken\<close>.
\<close>

definition common_block :: "Token list \<Rightarrow> Token list \<Rightarrow> nat \<Rightarrow> nat \<Rightarrow> nat \<Rightarrow> error + Delta list" where
  "common_block A B i j n =
     (if n > 0
      then err_bind (join A i (i + n)) (\<lambda>l.
           err_bind (join B j (j + n)) (\<lambda>r.
             (case (l, r) of
                (Some x, Some y) \<Rightarrow> Inr [\<lparr>op = Op_c, lhs = x, rhs = y\<rparr>]
              | _ \<Rightarrow> Inl NoneToken)))
      else Inr [])"

definition change_block :: "Token list \<Rightarrow> Token list \<Rightarrow> nat \<Rightarrow> nat \<Rightarrow> nat \<Rightarrow> nat \<Rightarrow> error + Delta list" where
  "change_block A B curi curj i j =
     err_bind (join A curi i) (\<lambda>l.
     err_bind (join B curj j) (\<lambda>r.
       (case classify l r of
          None \<Rightarrow> Inr []
        | Some k \<Rightarrow> Inr [\<lparr>op = k, lhs = or_token l (int i - 1), rhs = or_token r (int j - 1)\<rparr>])))"

text \<open>
  \<open>Differ.blocks\<close>: the generator is the list of the deltas it yields; the state of the
  \<open>for\<close> loop is \<open>(curi, curj)\<close>.
\<close>

fun blocks_loop :: "Token list \<Rightarrow> Token list \<Rightarrow> nat \<Rightarrow> nat \<Rightarrow> (nat \<times> nat \<times> nat) list \<Rightarrow> error + Delta list" where
  "blocks_loop A B curi curj [] = Inr []"
| "blocks_loop A B curi curj ((i, j, n) # rest) =
     err_bind (change_block A B curi curj i j) (\<lambda>change.
     err_bind (common_block A B i j n) (\<lambda>common.
     err_bind (blocks_loop A B (i + n) (j + n) rest) (\<lambda>ds.
       Inr (change @ common @ ds))))"

definition blocks :: "Differ \<Rightarrow> error + Delta list" where
  "blocks self =
     blocks_loop (atoks self) (btoks self) 0 0
       (get_matching_blocks (seqm_a self) (seqm_b self))"

section \<open>The word differ\<close>

record WordDiffer = Differ +
  start_delete :: string
  end_delete :: string
  start_insert :: string
  end_insert :: string

definition WordDiffer_init :: "string \<Rightarrow> string \<Rightarrow> regex \<Rightarrow> string \<Rightarrow> string \<Rightarrow> string \<Rightarrow> string \<Rightarrow> bool \<Rightarrow> WordDiffer" where
  "WordDiffer_init a b boundary sd ed si ei ignore_case =
     Differ.extend (Differ_init a b boundary ignore_case)
       (WordDiffer.fields sd ed si ei)"

text \<open>What \<open>WordDiffer.hunks\<close> yields for one block.\<close>

definition WordDiffer_hunk :: "WordDiffer \<Rightarrow> Delta \<Rightarrow> string" where
  "WordDiffer_hunk self b =
     (case op b of
        Op_c \<Rightarrow> word (lhs b) @ sep (lhs b)
      | Op_l \<Rightarrow> start_delete self @ word (lhs b) @ end_delete self @ sep (lhs b)
      | Op_r \<Rightarrow> start_insert self @ word (rhs b) @ end_insert self @ sep (rhs b)
      | Op_d \<Rightarrow> start_delete self @ word (lhs b) @ end_delete self
               @ start_insert self @ word (rhs b) @ end_insert self @ sep (rhs b))"

definition WordDiffer_get_diff :: "WordDiffer \<Rightarrow> error + string" where
  "WordDiffer_get_diff self =
     err_bind (blocks (Differ.truncate self)) (\<lambda>ds.
       Inr (concat (map (WordDiffer_hunk self) ds)))"

section \<open>The line differs\<close>

text \<open>
  \<open>LineDiffer.__init__\<close>: with a boundary other than \<open>\n\<close> the inputs are first compared
  on that boundary and rebuilt from the blocks; \<open>reduce_block\<close> is what one block appends
  to \<open>nlhs\<close> and to \<open>nrhs\<close>. The comparison proper is always on the pattern \<open>\n\<close>.
\<close>

definition reduce_block :: "bool \<Rightarrow> Delta \<Rightarrow> string \<times> string" where
  "reduce_block reverse b =
     (case op b of
        Op_c \<Rightarrow> (let s = (if reverse then Token_str (rhs b) else Token_str (lhs b)) in (s, s))
      | Op_l \<Rightarrow> (Token_str (lhs b), [])
      | Op_r \<Rightarrow> ([], Token_str (rhs b))
      | Op_d \<Rightarrow> (let sp = (if reverse then sep (rhs b) else sep (lhs b))
               in (word (lhs b) @ sp, word (rhs b) @ sp)))"

definition LineDiffer_init :: "string \<Rightarrow> string \<Rightarrow> regex \<Rightarrow> bool \<Rightarrow> bool \<Rightarrow> error + Differ" where
  "LineDiffer_init l r boundary reverse ignore_case =
     (if source boundary \<noteq> newline_source
      then err_bind (blocks (Differ_init l r boundary ignore_case)) (\<lambda>ds.
             Inr (Differ_init (concat (map (\<lambda>b. fst (reduce_block reverse b)) ds))
                              (concat (map (\<lambda>b. snd (reduce_block reverse b)) ds))
                              newline_regex ignore_case))
      else Inr (Differ_init l r newline_regex ignore_case))"

definition countlines :: "string \<Rightarrow> nat" where
  "countlines s = count_list s NL + (if s \<noteq> [] \<and> last s \<noteq> NL then 1 else 0)"

definition no_newline_marker :: string where
  "no_newline_marker = NL # CHR 0x5C # '' No newline at end of file'' @ [NL]"

definition addnl :: "string \<Rightarrow> string" where
  "addnl s = (if s \<noteq> [] \<and> last s = NL then s else s @ no_newline_marker)"

text \<open>
  \<open>re.sub(r"(?m)^", p, w)\<close> puts \<open>p\<close> at the start of \<open>w\<close> and after every newline of \<open>w\<close>.
\<close>

fun after_newlines :: "string \<Rightarrow> string \<Rightarrow> string" where
  "after_newlines p [] = []"
| "after_newlines p (ch # cs) =
     (if ch = NL then ch # p @ after_newlines p cs else ch # after_newlines p cs)"

definition sub_line_start :: "string \<Rightarrow> string \<Rightarrow> string" where
  "sub_line_start p w = p @ after_newlines p w"

definition preface :: "string \<Rightarrow> Token \<Rightarrow> string" where
  "preface p tok = addnl (sub_line_start p (word tok) @ sep tok)"

text \<open>\<open>"%d" % n\<close>.\<close>

definition digit_char :: "nat \<Rightarrow> char" where
  "digit_char n = char_of (48 + n)"

function show_nat :: "nat \<Rightarrow> string" where
  "show_nat n = (if n < 10 then [digit_char n] else show_nat (n div 10) @ [digit_char (n mod 10)])"
  by pat_completeness auto
termination
  by (relation "measure (\<lambda>n. n)") auto

declare show_nat.simps [simp del]

definition show_int :: "int \<Rightarrow> string" where
  "show_int n = (if n < 0 then CHR ''-'' # show_nat (nat (- n)) else show_nat (nat n))"

subsection \<open>Normal diff\<close>

definition NormalDiffer_init :: "string \<Rightarrow> string \<Rightarrow> regex \<Rightarrow> bool \<Rightarrow> bool \<Rightarrow> error + Differ" where
  "NormalDiffer_init l r boundary reverse ignore_case =
     LineDiffer_init l r boundary reverse ignore_case"

definition NormalDiffer_linerange :: "Token \<Rightarrow> string" where
  "NormalDiffer_linerange tok =
     (let count = countlines (word tok)
      in show_int (idx tok + 1)
         @ (if count > 1 then CHR '','' # show_int (idx tok + int count) else []))"

text \<open>The list \<open>lines\<close> that \<open>NormalDiffer.hunks\<close> builds for one block that is not common.\<close>

definition NormalDiffer_lines :: "Delta \<Rightarrow> string list" where
  "NormalDiffer_lines b =
     [NormalDiffer_linerange (lhs b)
        @ (if op b = Op_l then ''d'' else if op b = Op_r then ''a'' else ''c'')
        @ NormalDiffer_linerange (rhs b) @ [NL]]
     @ (if Token_bool (lhs b)
        then [preface ''< '' (lhs b)] @ (if Token_bool (rhs b) then [''---'' @ [NL]] else [])
        else [])
     @ (if Token_bool (rhs b) then [preface ''> '' (rhs b)] else [])"

definition NormalDiffer_hunks :: "Differ \<Rightarrow> error + string list" where
  "NormalDiffer_hunks self =
     err_bind (blocks self) (\<lambda>ds.
       Inr (map (\<lambda>b. concat (NormalDiffer_lines b)) (filter (\<lambda>b. op b \<noteq> Op_c) ds)))"

definition NormalDiffer_get_diff :: "Differ \<Rightarrow> error + string" where
  "NormalDiffer_get_diff self = err_bind (NormalDiffer_hunks self) (\<lambda>hs. Inr (concat hs))"

subsection \<open>Context diff\<close>

record ContextDiffer = Differ +
  context_size :: nat

definition ContextDiffer_init :: "string \<Rightarrow> string \<Rightarrow> regex \<Rightarrow> nat \<Rightarrow> bool \<Rightarrow> bool \<Rightarrow> error + ContextDiffer" where
  "ContextDiffer_init l r boundary ctx reverse ignore_case =
     err_bind (LineDiffer_init l r boundary reverse ignore_case) (\<lambda>d.
       Inr (Differ.extend d (ContextDiffer.fields ctx)))"

text \<open>
  \<open>str.splitlines(False)\<close>: a line ends at \<open>\n\<close>, \<open>\r\<close>, \<open>\r\n\<close>, \<open>\v\<close>, \<open>\f\<close>, \<open>\x1c\<close>,
  \<open>\x1d\<close>, \<open>\x1e\<close> or \<open>\x85\<close>, and no empty line is reported after a final line end.
\<close>

definition is_linebreak :: "char \<Rightarrow> bool" where
  "is_linebreak ch = (ch \<in> set [NL, CHR 0x0B, CHR 0x0C, CR, CHR 0x1C, CHR 0x1D, CHR 0x1E, CHR 0x85])"

fun splitlines :: "string \<Rightarrow> string list" where
  "splitlines [] = []"
| "splitlines (ch # cs) =
     (if ch = CR
      then (case cs of
              [] \<Rightarrow> [[]]
            | c2 # cs2 \<Rightarrow> if c2 = NL then [] # splitlines cs2 else [] # splitlines cs)
      else if is_linebreak ch then [] # splitlines cs
      else (case splitlines cs of
              [] \<Rightarrow> [[ch]]
            | ln # lns \<Rightarrow> (ch # ln) # lns))"

text \<open>\<open>"\n".join(xs)\<close>, and \<open>xs[-n:]\<close>, which is all of \<open>xs\<close> for \<open>n = 0\<close>.\<close>

fun join_nl :: "string list \<Rightarrow> string" where
  "join_nl [] = []"
| "join_nl [x] = x"
| "join_nl (x # y # xs) = x @ NL # join_nl (y # xs)"

definition last_n :: "nat \<Rightarrow> 'a list \<Rightarrow> 'a list" where
  "last_n n xs = (if n = 0 then xs else drop (length xs - n) xs)"

datatype dir = Head | Tail

definition trim :: "nat \<Rightarrow> Delta \<Rightarrow> dir \<Rightarrow> bool \<Rightarrow> error + Delta \<times> bool" where
  "trim ctx delta d inner =
     (if op delta \<noteq> Op_c then Inl AssertionError
      else
        (let lines = countlines (Token_str (lhs delta))
         in if lines \<le> (if inner then ctx * 2 else ctx) then Inr (delta, False)
            else
              (let wd = (if d = Head
                         then join_nl (take ctx (splitlines (word (lhs delta))))
                         else join_nl (last_n ctx (splitlines (word (lhs delta)))));
                   adjust_idx = (if d = Head then 0 else int lines - int ctx)
               in Inr (\<lparr>op = Op_c,
                        lhs = \<lparr>word = wd, sep = sep (lhs delta),
                               idx = idx (lhs delta) + adjust_idx\<rparr>,
                        rhs = \<lparr>word = wd, sep = sep (rhs delta),
                               idx = idx (rhs delta) + adjust_idx\<rparr>\<rparr>, True))))"

text \<open>
  \<open>context_blocks\<close>. \<open>inner_loop\<close> is the inner \<open>while next_delta\<close> loop: it is entered
  with the list \<open>blocks\<close> built so far, the current \<open>next_delta\<close> and the iterator
  \<open>blocki\<close>, draws \<open>after\<close> and the new \<open>next_delta\<close> from the iterator (\<open>None\<close> when it
  is exhausted), and leaves with \<open>(blocks, before, next_delta, blocki)\<close>. The variables
  \<open>before\<close> and \<open>after\<close> of the source are written \<open>bef\<close> and \<open>aft\<close>.
\<close>

fun inner_loop :: "nat \<Rightarrow> Delta list \<Rightarrow> Delta \<Rightarrow> Delta list \<Rightarrow>
    error + Delta list \<times> Delta option \<times> Delta option \<times> Delta list" where
  "inner_loop ctx blks delta [] = Inr (blks @ [delta], None, None, [])"
| "inner_loop ctx blks delta [aft] =
     err_bind (trim ctx aft Head False) (\<lambda>(aft', trimmed).
       Inr (blks @ [delta, aft'], Some aft, None, []))"
| "inner_loop ctx blks delta (aft # next_delta # blocki) =
     err_bind (trim ctx aft Head True) (\<lambda>(aft', trimmed).
       if trimmed then Inr (blks @ [delta, aft'], Some aft, Some next_delta, blocki)
       else inner_loop ctx (blks @ [delta, aft']) next_delta blocki)"

lemma inner_loop_length:
  "inner_loop ctx blks delta blocki = Inr (blks', bef', nd', blocki') \<Longrightarrow>
   length blocki' \<le> length blocki \<and> (nd' \<noteq> None \<longrightarrow> length blocki' < length blocki)"
proof (induction ctx blks delta blocki rule: inner_loop.induct)
  case (1 ctx blks delta)
  then show ?case by simp
next
  case (2 ctx blks delta aft)
  then show ?case by (auto simp: err_bind_def split: sum.splits prod.splits)
next
  case (3 ctx blks delta aft next_delta blocki)
  then show ?case
    by (auto simp: err_bind_def split: sum.splits prod.splits if_splits) fastforce+
qed

text \<open>The outer \<open>while next_delta\<close> loop; each round yields one list of blocks.\<close>

function context_loop :: "nat \<Rightarrow> Delta option \<Rightarrow> Delta option \<Rightarrow> Delta list \<Rightarrow> error + Delta list list" where
  "context_loop ctx bef None blocki = Inr []"
| "context_loop ctx bef (Some next_delta) blocki =
     err_bind (case bef of
                 None \<Rightarrow> Inr []
               | Some bf \<Rightarrow> err_bind (trim ctx bf Tail False) (\<lambda>(bf', trimmed). Inr [bf'])) (\<lambda>blks.
     err_bind (inner_loop ctx blks next_delta blocki) (\<lambda>(blks', bef', nd', blocki').
     err_bind (context_loop ctx bef' nd' blocki') (\<lambda>rest.
       Inr (blks' # rest))))"
  by pat_completeness auto
termination
  by (relation "measure (\<lambda>(ctx, bef, nd, blocki).
        (case nd of None \<Rightarrow> 0 | Some x \<Rightarrow> Suc (length blocki)))")
     (auto split: option.splits dest!: inner_loop_length)

definition context_blocks_of :: "nat \<Rightarrow> Delta list \<Rightarrow> error + Delta list list" where
  "context_blocks_of ctx ds =
     (case ds of
        [] \<Rightarrow> context_loop ctx None None []
      | d1 # rest \<Rightarrow>
          if op d1 = Op_c
          then (case rest of
                  [] \<Rightarrow> context_loop ctx (Some d1) None []
                | d2 # rest2 \<Rightarrow> context_loop ctx (Some d1) (Some d2) rest2)
          else context_loop ctx None (Some d1) rest)"

definition context_blocks :: "ContextDiffer \<Rightarrow> error + Delta list list" where
  "context_blocks self =
     err_bind (blocks (Differ.truncate self)) (context_blocks_of (context_size self))"

datatype side = Lhs | Rhs

definition side_token :: "side \<Rightarrow> Delta \<Rightarrow> Token" where
  "side_token sd b = (case sd of Lhs \<Rightarrow> lhs b | Rhs \<Rightarrow> rhs b)"

definition side_op :: "side \<Rightarrow> op_kind" where
  "side_op sd = (case sd of Lhs \<Rightarrow> Op_l | Rhs \<Rightarrow> Op_r)"

definition ContextDiffer_linerange :: "Delta list \<Rightarrow> side \<Rightarrow> error + string" where
  "ContextDiffer_linerange blks sd =
     (case blks of
        [] \<Rightarrow> Inl IndexError
      | b0 # _ \<Rightarrow>
          (let i = idx (side_token sd b0);
               count = sum_list (map (\<lambda>b. countlines (Token_str (side_token sd b))) blks)
           in Inr (show_int (i + 1)
                   @ (if count > 1 then CHR '','' # show_int (i + int count) else []))))"

definition ContextDiffer_hunk :: "Delta list \<Rightarrow> side \<Rightarrow> string" where
  "ContextDiffer_hunk blks sd =
     (if \<not> list_ex (\<lambda>b. op b = side_op sd \<or> op b = Op_d) blks then []
      else concat (map (\<lambda>b.
             if op b = Op_c then preface ''  '' (lhs b)
             else if op b = Op_d then preface ''! '' (side_token sd b)
             else if op b = side_op sd
               then preface (if sd = Lhs then ''- '' else ''+ '') (side_token sd b)
             else []) blks))"

definition ContextDiffer_render :: "Delta list \<Rightarrow> error + string" where
  "ContextDiffer_render blks =
     err_bind (ContextDiffer_linerange blks Lhs) (\<lambda>lr.
     err_bind (ContextDiffer_linerange blks Rhs) (\<lambda>rr.
       Inr (''***************'' @ [NL] @ ''*** '' @ lr @ '' ****'' @ [NL]
            @ ContextDiffer_hunk blks Lhs
            @ ''--- '' @ rr @ '' ----'' @ [NL]
            @ ContextDiffer_hunk blks Rhs)))"

text \<open>A list of results is a result: the first error wins.\<close>

fun collect :: "(error + 'a) list \<Rightarrow> error + 'a list" where
  "collect [] = Inr []"
| "collect (x # xs) = err_bind x (\<lambda>y. err_bind (collect xs) (\<lambda>ys. Inr (y # ys)))"

definition ContextDiffer_hunks :: "ContextDiffer \<Rightarrow> error + string list" where
  "ContextDiffer_hunks self =
     err_bind (context_blocks self) (\<lambda>hs. collect (map ContextDiffer_render hs))"

definition ContextDiffer_get_diff :: "ContextDiffer \<Rightarrow> error + string" where
  "ContextDiffer_get_diff self = err_bind (ContextDiffer_hunks self) (\<lambda>hs. Inr (concat hs))"

subsection \<open>Unified diff\<close>

definition UnifiedDiffer_linerange :: "Delta list \<Rightarrow> side \<Rightarrow> error + string" where
  "UnifiedDiffer_linerange blks sd =
     (case blks of
        [] \<Rightarrow> Inl IndexError
      | b0 # _ \<Rightarrow>
          (let i = idx (side_token sd b0);
               count = sum_list (map (\<lambda>b. countlines (Token_str (side_token sd b))) blks)
           in Inr (show_int (i + 1)
                   @ (if count > 1 then CHR '','' # show_int (int count) else []))))"

definition UnifiedDiffer_hunk :: "Delta list \<Rightarrow> string" where
  "UnifiedDiffer_hunk blks =
     concat (map (\<lambda>b.
       if op b = Op_c then preface '' '' (lhs b)
       else if op b = Op_l then preface ''-'' (lhs b)
       else if op b = Op_r then preface ''+'' (rhs b)
       else preface ''-'' (lhs b) @ preface ''+'' (rhs b)) blks)"

definition UnifiedDiffer_render :: "Delta list \<Rightarrow> error + string" where
  "UnifiedDiffer_render blks =
     err_bind (UnifiedDiffer_linerange blks Lhs) (\<lambda>lr.
     err_bind (UnifiedDiffer_linerange blks Rhs) (\<lambda>rr.
       Inr (''@@ -'' @ lr @ '' +'' @ rr @ '' @@'' @ [NL] @ UnifiedDiffer_hunk blks)))"

definition UnifiedDiffer_hunks :: "ContextDiffer \<Rightarrow> error + string list" where
  "UnifiedDiffer_hunks self =
     err_bind (context_blocks self) (\<lambda>hs. collect (map UnifiedDiffer_render hs))"

definition UnifiedDiffer_get_diff :: "ContextDiffer \<Rightarrow> error + string" where
  "UnifiedDiffer_get_diff self = err_bind (UnifiedDiffer_hunks self) (\<lambda>hs. Inr (concat hs))"

section \<open>Reconstruction of the input by the Tokenizer\<close>

lemma slice_drop: "i \<le> j \<Longrightarrow> slice s i j @ drop j s = drop i s"
proof -
  assume "i \<le> j"
  then have "drop j s = drop (j - i) (drop i s)" by simp
  then show ?thesis unfolding slice_def by (metis append_take_drop_id)
qed

lemma slice_to_end: "slice s i (length s) = drop i s"
  by (simp add: slice_def)

lemma skip_zero_width_ok:
  "skip_zero_width m sepi = (m', sepi') \<Longrightarrow> fst m \<le> snd m \<Longrightarrow> snd m \<le> n \<Longrightarrow>
   matches_from n (snd m) sepi \<Longrightarrow>
   fst m \<le> fst m' \<and> fst m' \<le> snd m' \<and> snd m' \<le> n \<and> matches_from n (snd m') sepi'"
proof (induction m sepi arbitrary: m' sepi' rule: skip_zero_width.induct)
  case (1 m)
  then show ?case by simp
next
  case (2 m nextm sepi)
  show ?case
  proof (cases "fst m = snd m \<and> snd m = fst nextm")
    case True
    with 2 show ?thesis by fastforce
  next
    case False
    with 2 show ?thesis by auto
  qed
qed

lemma isplit_loop_step:
  "\<not> (fst m = snd m \<and> snd m = pe) \<Longrightarrow> skip_zero_width m sepi = (m', sepi') \<Longrightarrow>
   isplit_loop s pe (m # sepi) =
     slice s pe (fst m') # (if fst m' = length s then []
        else slice s (fst m') (snd m') # isplit_loop s (snd m') sepi')"
  by (cases "fst m = snd m"; cases "snd m = pe"; simp)

lemma concat_isplit_loop:
  "matches_from (length s) pe ms \<Longrightarrow> concat (isplit_loop s pe ms) = drop pe s"
proof (induction s pe ms rule: isplit_loop.induct)
  case (1 s pe)
  then show ?case by simp
next
  case (2 s pe m sepi)
  show ?case
  proof (cases "fst m = snd m \<and> snd m = pe")
    case True
    with 2 show ?thesis by simp
  next
    case False
    obtain m' sepi' where sk: "skip_zero_width m sepi = (m', sepi')" by fastforce
    from "2.prems" have m: "pe \<le> fst m" "fst m \<le> snd m" "snd m \<le> length s"
      "matches_from (length s) (snd m) sepi" by simp_all
    from skip_zero_width_ok [OF sk m(2) m(3) m(4)]
    have m': "fst m \<le> fst m'" "fst m' \<le> snd m'" "snd m' \<le> length s"
      "matches_from (length s) (snd m') sepi'" by simp_all
    show ?thesis
    proof (cases "fst m' = length s")
      case True
      with isplit_loop_step [OF False sk, of s] show ?thesis by (simp add: slice_to_end)
    next
      case ne: False
      have "concat (isplit_loop s (snd m') sepi') = drop (snd m') s"
        using "2.IH"(2) [OF False sk [symmetric] ne m'(4)] .
      with isplit_loop_step [OF False sk, of s] ne have "concat (isplit_loop s pe (m # sepi)) =
        slice s pe (fst m') @ slice s (fst m') (snd m') @ drop (snd m') s" by simp
      also have "\<dots> = slice s pe (fst m') @ drop (fst m') s"
        using m'(2) by (simp add: slice_drop)
      also have "\<dots> = drop pe s" using m(1) m'(1) by (simp add: slice_drop)
      finally show ?thesis .
    qed
  qed
qed

lemma odd_isplit_loop: "odd (length (isplit_loop s pe ms))"
proof (induction s pe ms rule: isplit_loop.induct)
  case (1 s pe)
  then show ?case by simp
next
  case (2 s pe m sepi)
  show ?case
  proof (cases "fst m = snd m \<and> snd m = pe")
    case True
    with 2 show ?thesis by simp
  next
    case False
    obtain m' sepi' where sk: "skip_zero_width m sepi = (m', sepi')" by fastforce
    show ?thesis
    proof (cases "fst m' = length s")
      case True
      with isplit_loop_step [OF False sk, of s] show ?thesis by simp
    next
      case ne: False
      from "2.IH"(2) [OF False sk [symmetric] ne] isplit_loop_step [OF False sk, of s] ne
      show ?thesis by simp
    qed
  qed
qed

lemma even_up_even: "odd (length xs) \<Longrightarrow> even (length (even_up xs))"
  by (cases xs rule: rev_cases) (auto simp: even_up_def)

lemma concat_even_up: "concat (even_up xs) = concat xs"
  by (cases xs rule: rev_cases) (auto simp: even_up_def)

lemma stride2_Cons: "stride2 (y # xs) = y # stride2 (drop 1 xs)"
  by (cases xs) simp_all

lemma concat_pairs:
  "even (length xs) \<Longrightarrow> length js = length xs div 2 \<Longrightarrow>
   concat (map (\<lambda>(w, sp, i). w @ sp)
     (zip (stride2 xs) (zip (stride2 (drop 1 xs)) js))) = concat xs"
proof (induction xs arbitrary: js rule: stride2.induct)
  case 1
  then show ?case by simp
next
  case (2 x)
  then show ?case by simp
next
  case (3 x y xs)
  then obtain j js' where js: "js = j # js'" by (cases js) auto
  with 3 show ?case by (simp add: stride2_Cons)
qed

lemma idx_pairs:
  "even (length xs) \<Longrightarrow> length js = length xs div 2 \<Longrightarrow>
   map idx (map (\<lambda>(w, sp, i). \<lparr>word = w, sep = sp, idx = int i\<rparr>)
     (zip (stride2 xs) (zip (stride2 (drop 1 xs)) js))) = map int js"
proof (induction xs arbitrary: js rule: stride2.induct)
  case 1
  then show ?case by simp
next
  case (2 x)
  then show ?case by simp
next
  case (3 x y xs)
  then obtain j js' where js: "js = j # js'" by (cases js) auto
  with 3 show ?case by (simp add: stride2_Cons)
qed

lemma Tokenizer_idx: "map idx (Tokenizer s boundary) = map int [0..<length (Tokenizer s boundary)]"
proof -
  let ?splits = "even_up (isplit boundary s)"
  have ev: "even (length ?splits)"
    by (simp add: isplit_def even_up_even odd_isplit_loop)
  have "map idx (Tokenizer s boundary) = map int [0..<length ?splits div 2]"
    using idx_pairs [OF ev, of "[0..<length ?splits div 2]"] by (simp add: Tokenizer_def Let_def)
  moreover have "length (Tokenizer s boundary) = length ?splits div 2"
    using arg_cong [OF calculation, of length] by simp
  ultimately show ?thesis by simp
qed

lemma Tokenizer_str:
  assumes "matches_ok boundary s"
  shows "concat (map Token_str (Tokenizer s boundary)) = s"
proof -
  let ?splits = "even_up (isplit boundary s)"
  have ev: "even (length ?splits)"
    by (simp add: isplit_def even_up_even odd_isplit_loop)
  have "concat ?splits = s"
    using assms by (simp add: concat_even_up isplit_def matches_ok_def concat_isplit_loop)
  moreover have "map Token_str (Tokenizer s boundary) =
     map (\<lambda>(w, sp, i). w @ sp)
       (zip (stride2 ?splits) (zip (stride2 (drop 1 ?splits)) [0..<length ?splits div 2]))"
    by (simp add: Tokenizer_def Let_def case_prod_unfold comp_def Token_str_def)
  ultimately show ?thesis
    using concat_pairs [OF ev, of "[0..<length ?splits div 2]"] by simp
qed

text \<open>
  C1. For every input string and every boundary pattern, zero-width matches included,
  the concatenation of \<open>word + sep\<close> over the tokens of the Tokenizer, in the order of
  their indices \<open>0, 1, 2, ...\<close>, is the input string. The hypothesis is what the
  regular-expression library guarantees of the matches it reports.
\<close>

theorem tokenizer_reconstruction:
  assumes "matches_ok boundary s"
  shows "concat (map (\<lambda>t. word t @ sep t) (Tokenizer s boundary)) = s
    \<and> map idx (Tokenizer s boundary) = map int [0..<length (Tokenizer s boundary)]"
proof
  have "Token_str = (\<lambda>t. word t @ sep t)" by (rule ext) (simp add: Token_str_def)
  with Tokenizer_str [OF assms]
  show "concat (map (\<lambda>t. word t @ sep t) (Tokenizer s boundary)) = s"
    by simp
  show "map idx (Tokenizer s boundary) = map int [0..<length (Tokenizer s boundary)]"
    by (rule Tokenizer_idx)
qed

text \<open>
  The witness: the matches of the pattern \<open>\b|\s+\<close> on \<open>foo  bar\<close>, with a zero-width match
  at the start, one directly before the blanks and one directly after them.
\<close>

theorem tokenizer_reconstruction_witness:
  "matches_ok \<lparr>source = [CHR 0x5C, CHR ''b'', CHR ''|'', CHR 0x5C, CHR ''s'', CHR ''+''], finditer = (\<lambda>s. [(0, 0), (3, 3), (3, 5), (5, 5), (8, 8)])\<rparr>
      ''foo  bar''
   \<and> concat (map (\<lambda>t. word t @ sep t)
        (Tokenizer ''foo  bar''
          \<lparr>source = [CHR 0x5C, CHR ''b'', CHR ''|'', CHR 0x5C, CHR ''s'', CHR ''+''], finditer = (\<lambda>s. [(0, 0), (3, 3), (3, 5), (5, 5), (8, 8)])\<rparr>))
       = ''foo  bar''
   \<and> map idx (Tokenizer ''foo  bar''
          \<lparr>source = [CHR 0x5C, CHR ''b'', CHR ''|'', CHR 0x5C, CHR ''s'', CHR ''+''], finditer = (\<lambda>s. [(0, 0), (3, 3), (3, 5), (5, 5), (8, 8)])\<rparr>)
       = [0, 1]"
proof -
  let ?r = "\<lparr>source = [CHR 0x5C, CHR ''b'', CHR ''|'', CHR 0x5C, CHR ''s'', CHR ''+''], finditer = (\<lambda>s. [(0::nat, 0::nat), (3, 3), (3, 5), (5, 5), (8, 8)])\<rparr>"
  have ok: "matches_ok ?r ''foo  bar''" by (simp add: matches_ok_def)
  have "Tokenizer ''foo  bar'' ?r =
      [\<lparr>word = ''foo'', sep = ''  '', idx = 0\<rparr>, \<lparr>word = ''bar'', sep = [], idx = 1\<rparr>]"
    by code_simp
  with ok tokenizer_reconstruction [OF ok] show ?thesis by simp
qed

section \<open>The blocks of an alignment\<close>

text \<open>
  \<open>idx_ok\<close> is the integrity that \<open>join\<close> asserts: every token carries its position.
  \<open>lhs_text\<close> and \<open>rhs_text\<close> are the two sides of a list of blocks as text, and
  \<open>alternating\<close> says that of two neighbouring blocks exactly one is common.
\<close>

definition idx_ok :: "Token list \<Rightarrow> bool" where
  "idx_ok ts = (map idx ts = map int [0..<length ts])"

lemma idx_ok_nth: "idx_ok ts \<Longrightarrow> k < length ts \<Longrightarrow> idx (ts ! k) = int k"
  unfolding idx_ok_def by (metis add_0 length_map nth_map nth_upt)

lemma Token_bool_True [simp]: "Token_bool t"
  by (simp add: Token_bool_def Token_len_def)

lemma slice_snoc: "first < limit \<Longrightarrow> limit \<le> length ts \<Longrightarrow>
  slice ts first limit = slice ts first (limit - 1) @ [ts ! (limit - 1)]"
proof -
  assume a: "first < limit" "limit \<le> length ts"
  then have "limit - first = Suc (limit - 1 - first)" by simp
  moreover have "limit - 1 - first < length (drop first ts)" using a by simp
  ultimately show ?thesis using a
    by (simp add: slice_def take_Suc_conv_app_nth)
qed

lemma slice_one: "first < length ts \<Longrightarrow> slice ts first (Suc first) = [ts ! first]"
  using slice_snoc [of first "Suc first" ts] by (simp add: slice_def)

lemma join_empty: "first \<le> length ts \<Longrightarrow> join ts first first = Inr None"
  by (simp add: join_def)

lemma join_some:
  assumes "idx_ok ts" "first < limit" "limit \<le> length ts"
  shows "\<exists>t. join ts first limit = Inr (Some t)
           \<and> Token_str t = concat (map Token_str (slice ts first limit))"
proof (cases "limit - 1 = first")
  case True
  then have "limit = Suc first" using assms(2) by simp
  with assms show ?thesis by (simp add: join_def slice_one)
next
  case False
  let ?t = "\<lparr>word = concat (map Token_str (slice ts first (limit - 1))) @ word (ts ! (limit - 1)),
             sep = sep (ts ! (limit - 1)), idx = int first\<rparr>"
  have "idx (ts ! first) = int first" using assms by (intro idx_ok_nth) simp_all
  with False assms have "join ts first limit = Inr (Some ?t)" by (simp add: join_def)
  moreover have "Token_str ?t = concat (map Token_str (slice ts first limit))"
    using slice_snoc [OF assms(2,3)] by (simp add: Token_str_def)
  ultimately show ?thesis by blast
qed

lemma join_cases:
  assumes "idx_ok ts" "first \<le> limit" "limit \<le> length ts"
  shows "\<exists>r. join ts first limit = Inr r \<and> (r = None) = (first = limit)
     \<and> (case r of None \<Rightarrow> [] | Some t \<Rightarrow> Token_str t) = concat (map Token_str (slice ts first limit))"
proof (cases "first = limit")
  case True
  with assms show ?thesis by (simp add: join_empty slice_def)
next
  case False
  with assms have "first < limit" by simp
  from join_some [OF assms(1) this assms(3)] False show ?thesis by auto
qed


definition lhs_text :: "Delta list \<Rightarrow> string" where
  "lhs_text ds = concat (map (\<lambda>d. Token_str (lhs d)) ds)"

definition rhs_text :: "Delta list \<Rightarrow> string" where
  "rhs_text ds = concat (map (\<lambda>d. Token_str (rhs d)) ds)"

fun alternating :: "Delta list \<Rightarrow> bool" where
  "alternating [] = True"
| "alternating [x] = True"
| "alternating (x # y # ds) = ((op x = Op_c) \<noteq> (op y = Op_c) \<and> alternating (y # ds))"

definition starts_with_change :: "Delta list \<Rightarrow> bool" where
  "starts_with_change ds = (case ds of [] \<Rightarrow> True | d # _ \<Rightarrow> op d \<noteq> Op_c)"

lemma lhs_text_append [simp]: "lhs_text (xs @ ys) = lhs_text xs @ lhs_text ys"
  by (simp add: lhs_text_def)

lemma lhs_text_Cons [simp]: "lhs_text (d # ds) = Token_str (lhs d) @ lhs_text ds"
  by (simp add: lhs_text_def)

lemma rhs_text_Cons [simp]: "rhs_text (d # ds) = Token_str (rhs d) @ rhs_text ds"
  by (simp add: rhs_text_def)

lemma text_Nil [simp]: "lhs_text [] = []" "rhs_text [] = []"
  by (simp_all add: lhs_text_def rhs_text_def)

lemma rhs_text_append [simp]: "rhs_text (xs @ ys) = rhs_text xs @ rhs_text ys"
  by (simp add: rhs_text_def)

lemma change_block_ok:
  assumes "idx_ok A" "idx_ok B" "ci \<le> i" "i \<le> length A" "cj \<le> j" "j \<le> length B"
  shows "\<exists>ch. change_block A B ci cj i j = Inr ch
     \<and> lhs_text ch = concat (map Token_str (slice A ci i))
     \<and> rhs_text ch = concat (map Token_str (slice B cj j))
     \<and> (ch = [] \<or> (\<exists>d. ch = [d] \<and> op d \<noteq> Op_c))
     \<and> (ch = []) = (ci = i \<and> cj = j)"
proof -
  from join_cases [OF assms(1,3,4)] obtain l where
    l: "join A ci i = Inr l" "(l = None) = (ci = i)"
       "(case l of None \<Rightarrow> [] | Some t \<Rightarrow> Token_str t) = concat (map Token_str (slice A ci i))"
    by blast
  from join_cases [OF assms(2,5,6)] obtain r where
    r: "join B cj j = Inr r" "(r = None) = (cj = j)"
       "(case r of None \<Rightarrow> [] | Some t \<Rightarrow> Token_str t) = concat (map Token_str (slice B cj j))"
    by blast
  show ?thesis
    using l r
    by (cases l; cases r)
       (auto simp: change_block_def err_bind_def classify_def or_token_def lhs_text_def
          rhs_text_def Token_str_def)
qed

lemma common_block_ok:
  assumes "idx_ok A" "idx_ok B" "i + n \<le> length A" "j + n \<le> length B"
  shows "\<exists>cm. common_block A B i j n = Inr cm
     \<and> lhs_text cm = concat (map Token_str (slice A i (i + n)))
     \<and> rhs_text cm = concat (map Token_str (slice B j (j + n)))
     \<and> (if n = 0 then cm = [] else (\<exists>d. cm = [d] \<and> op d = Op_c))"
proof (cases "n = 0")
  case True
  then show ?thesis by (simp add: common_block_def lhs_text_def rhs_text_def slice_def)
next
  case False
  then have n: "i < i + n" "j < j + n" by simp_all
  from join_some [OF assms(1) n(1) assms(3)] obtain x where
    x: "join A i (i + n) = Inr (Some x)" "Token_str x = concat (map Token_str (slice A i (i + n)))"
    by blast
  from join_some [OF assms(2) n(2) assms(4)] obtain y where
    y: "join B j (j + n) = Inr (Some y)" "Token_str y = concat (map Token_str (slice B j (j + n)))"
    by blast
  from False x y show ?thesis
    by (simp add: common_block_def err_bind_def lhs_text_def rhs_text_def)
qed

lemma concat_slice_drop:
  "i \<le> j \<Longrightarrow> concat (map f (slice xs i j)) @ concat (map f (drop j xs)) = concat (map f (drop i xs))"
  using slice_drop [of i j xs] by (metis concat_append map_append)

lemma blocks_loop_ok:
  "mbs_ok (length A) (length B) first ci cj mbs \<Longrightarrow> idx_ok A \<Longrightarrow> idx_ok B \<Longrightarrow>
   \<exists>ds. blocks_loop A B ci cj mbs = Inr ds
     \<and> lhs_text ds = concat (map Token_str (drop ci A))
     \<and> rhs_text ds = concat (map Token_str (drop cj B))
     \<and> alternating ds \<and> (first \<or> starts_with_change ds)"
proof (induction "length A" "length B" first ci cj mbs rule: mbs_ok.induct)
  case (1 first ci cj)
  then show ?case by simp
next
  case (2 first ci cj i j n)
  then have e: "i = length A" "j = length B" "n = 0" "ci \<le> length A" "cj \<le> length B" by simp_all
  from change_block_ok [OF "2.prems"(2,3), of ci i cj j] e obtain ch where
    ch: "change_block A B ci cj i j = Inr ch"
        "lhs_text ch = concat (map Token_str (slice A ci i))"
        "rhs_text ch = concat (map Token_str (slice B cj j))"
        "ch = [] \<or> (\<exists>d. ch = [d] \<and> op d \<noteq> Op_c)" by auto
  have "blocks_loop A B ci cj [(i, j, n)] = Inr ch"
    using ch(1) e(3) by (simp add: err_bind_def common_block_def)
  moreover have "slice A ci i = drop ci A" "slice B cj j = drop cj B"
    unfolding e by (simp_all add: slice_to_end)
  ultimately show ?case using ch(2,3,4) by (auto simp: starts_with_change_def)
next
  case (3 first ci cj i j n m ms)
  then have e: "ci \<le> i" "cj \<le> j" "first \<or> ci < i \<or> cj < j" "0 < n" "i + n \<le> length A"
    "j + n \<le> length B" "mbs_ok (length A) (length B) False (i + n) (j + n) (m # ms)"
    by simp_all
  from change_block_ok [OF "3.prems"(2,3) e(1) _ e(2)] e obtain ch where
    ch: "change_block A B ci cj i j = Inr ch"
        "lhs_text ch = concat (map Token_str (slice A ci i))"
        "rhs_text ch = concat (map Token_str (slice B cj j))"
        "ch = [] \<or> (\<exists>d. ch = [d] \<and> op d \<noteq> Op_c)"
        "(ch = []) = (ci = i \<and> cj = j)" by auto
  from common_block_ok [OF "3.prems"(2,3) e(5,6)] e(4) obtain c where
    cm: "common_block A B i j n = Inr [c]" "op c = Op_c"
        "lhs_text [c] = concat (map Token_str (slice A i (i + n)))"
        "rhs_text [c] = concat (map Token_str (slice B j (j + n)))" by auto
  from "3.hyps" [OF e(7) "3.prems"(2,3)] obtain ds where
    ds: "blocks_loop A B (i + n) (j + n) (m # ms) = Inr ds"
        "lhs_text ds = concat (map Token_str (drop (i + n) A))"
        "rhs_text ds = concat (map Token_str (drop (j + n) B))"
        "alternating ds" "starts_with_change ds" by auto
  have r: "blocks_loop A B ci cj ((i, j, n) # m # ms) = Inr (ch @ [c] @ ds)"
    using ch(1) cm(1) ds(1) by (simp add: err_bind_def)
  have l: "lhs_text (ch @ [c] @ ds) = concat (map Token_str (drop ci A))"
    using ch(2) cm(3) ds(2) concat_slice_drop [of i "i + n" Token_str A]
      concat_slice_drop [OF e(1), of Token_str A] by simp
  have rr: "rhs_text (ch @ [c] @ ds) = concat (map Token_str (drop cj B))"
    using ch(3) cm(4) ds(3) concat_slice_drop [of j "j + n" Token_str B]
      concat_slice_drop [OF e(2), of Token_str B] by simp
  have a1: "alternating (c # ds)"
    using ds(4,5) cm(2) by (cases ds) (auto simp: starts_with_change_def)
  have a: "alternating (ch @ [c] @ ds)"
    using ch(4) a1 cm(2) by auto
  have s: "first \<or> starts_with_change (ch @ [c] @ ds)"
    using ch(4,5) e(3) by (auto simp: starts_with_change_def)
  from r l rr a s show ?case by blast
qed


lemma Differ_blocks_ok:
  assumes "matches_ok boundary a" "matches_ok boundary b"
  shows "\<exists>ds. blocks (Differ_init a b boundary ignore_case) = Inr ds
     \<and> lhs_text ds = a \<and> rhs_text ds = b \<and> alternating ds"
proof -
  let ?A = "Tokenizer a boundary" and ?B = "Tokenizer b boundary"
  let ?d = "Differ_init a b boundary ignore_case"
  have i: "idx_ok ?A" "idx_ok ?B" by (simp_all add: idx_ok_def Tokenizer_idx)
  have "mbs_ok (length (seqm_a ?d)) (length (seqm_b ?d)) True 0 0
     (get_matching_blocks (seqm_a ?d) (seqm_b ?d))" by (rule get_matching_blocks_ok)
  then have "mbs_ok (length ?A) (length ?B) True 0 0
     (get_matching_blocks (seqm_a ?d) (seqm_b ?d))" by (simp add: Differ_init_def Let_def)
  from blocks_loop_ok [OF this i] obtain ds where
    "blocks_loop ?A ?B 0 0 (get_matching_blocks (seqm_a ?d) (seqm_b ?d)) = Inr ds"
    "lhs_text ds = concat (map Token_str ?A)" "rhs_text ds = concat (map Token_str ?B)"
    "alternating ds" by auto
  then show ?thesis using assms
    by (simp add: blocks_def Differ_init_def Let_def Tokenizer_str)
qed

lemma Differ_blocks_alternating:
  "\<exists>ds. blocks (Differ_init a b boundary ignore_case) = Inr ds \<and> alternating ds"
proof -
  let ?A = "Tokenizer a boundary" and ?B = "Tokenizer b boundary"
  let ?d = "Differ_init a b boundary ignore_case"
  have i: "idx_ok ?A" "idx_ok ?B" by (simp_all add: idx_ok_def Tokenizer_idx)
  have "mbs_ok (length (seqm_a ?d)) (length (seqm_b ?d)) True 0 0
     (get_matching_blocks (seqm_a ?d) (seqm_b ?d))" by (rule get_matching_blocks_ok)
  then have "mbs_ok (length ?A) (length ?B) True 0 0
     (get_matching_blocks (seqm_a ?d) (seqm_b ?d))" by (simp add: Differ_init_def Let_def)
  from blocks_loop_ok [OF this i] obtain ds where
    "blocks_loop ?A ?B 0 0 (get_matching_blocks (seqm_a ?d) (seqm_b ?d)) = Inr ds"
    "alternating ds" by auto
  then show ?thesis
    by (simp add: blocks_def Differ_init_def Let_def)
qed

text \<open>
  C2. For every pair of inputs and every boundary and case setting, \<open>Differ.blocks\<close>
  runs without error, the concatenation of \<open>word + sep\<close> of the left tokens of its
  blocks is the left input, and that of the right tokens is the right input.
\<close>

theorem blocks_cover_inputs:
  assumes "matches_ok boundary a" and "matches_ok boundary b"
  shows "\<exists>ds. blocks (Differ_init a b boundary ignore_case) = Inr ds
     \<and> concat (map (\<lambda>d. word (lhs d) @ sep (lhs d)) ds) = a
     \<and> concat (map (\<lambda>d. word (rhs d) @ sep (rhs d)) ds) = b"
  using Differ_blocks_ok [OF assms, of ignore_case]
  by (auto simp: lhs_text_def rhs_text_def Token_str_def)

theorem blocks_cover_inputs_witness:
  "matches_ok blank_regex ''a  b c'' \<and> matches_ok blank_regex ''a b d e''
   \<and> (\<exists>ds. blocks (Differ_init ''a  b c'' ''a b d e'' blank_regex False) = Inr ds
     \<and> concat (map (\<lambda>d. word (lhs d) @ sep (lhs d)) ds) = ''a  b c''
     \<and> concat (map (\<lambda>d. word (rhs d) @ sep (rhs d)) ds) = ''a b d e'')"
proof -
  have m: "matches_ok blank_regex ''a  b c''" "matches_ok blank_regex ''a b d e''"
    by (simp_all add: matches_ok_def blank_regex_def)
  from m blocks_cover_inputs [OF m, of False] show ?thesis by blast
qed

text \<open>
  C9. In the blocks of \<open>Differ.blocks\<close> common blocks and change blocks alternate: of two
  neighbouring blocks exactly one is common. The hunk assembler relies on it: on two
  change blocks in a row it fails its assertion that a block it trims is common.
\<close>

theorem blocks_alternate:
  "(\<exists>ds. blocks (Differ_init a b boundary ignore_case) = Inr ds \<and> alternating ds)
   \<and> context_blocks_of 3
        [\<lparr>op = Op_l, lhs = \<lparr>word = ''x'', sep = [NL], idx = 0\<rparr>, rhs = \<lparr>word = [], sep = [], idx = - 1\<rparr>\<rparr>,
         \<lparr>op = Op_r, lhs = \<lparr>word = [], sep = [], idx = 0\<rparr>, rhs = \<lparr>word = ''y'', sep = [NL], idx = 0\<rparr>\<rparr>]
       = Inl AssertionError"
proof
  show "\<exists>ds. blocks (Differ_init a b boundary ignore_case) = Inr ds \<and> alternating ds"
    by (rule Differ_blocks_alternating)
  show "context_blocks_of 3
        [\<lparr>op = Op_l, lhs = \<lparr>word = ''x'', sep = [NL], idx = 0\<rparr>, rhs = \<lparr>word = [], sep = [], idx = - 1\<rparr>\<rparr>,
         \<lparr>op = Op_r, lhs = \<lparr>word = [], sep = [], idx = 0\<rparr>, rhs = \<lparr>word = ''y'', sep = [NL], idx = 0\<rparr>\<rparr>]
       = Inl AssertionError"
    by code_simp
qed

section \<open>Inputs with the same words\<close>

text \<open>
  When the two token lists have the same words the matcher reports one block over all
  of them, and \<open>Differ.blocks\<close> yields one common block, or none for the empty input.
\<close>

lemma slice_all: "slice xs 0 (length xs) = xs"
  by (simp add: slice_def)

lemma blocks_loop_equal_words:
  assumes "idx_ok A" "idx_ok B" "length A = length B" "A \<noteq> []"
  shows "\<exists>x y. blocks_loop A B 0 0 [(0, 0, length A), (length A, length A, 0)]
             = Inr [\<lparr>op = Op_c, lhs = x, rhs = y\<rparr>]
           \<and> Token_str x = concat (map Token_str A) \<and> Token_str y = concat (map Token_str B)
           \<and> join A 0 (length A) = Inr (Some x) \<and> join B 0 (length B) = Inr (Some y)"
proof -
  have nA: "0 < length A" using assms(4) by simp
  have nB: "0 < length B" using assms(3) nA by simp
  from join_some [OF assms(1) nA le_refl] obtain x where
    x: "join A 0 (length A) = Inr (Some x)" "Token_str x = concat (map Token_str A)"
    unfolding slice_all by blast
  from join_some [OF assms(2) nB le_refl] obtain y where
    y: "join B 0 (length B) = Inr (Some y)" "Token_str y = concat (map Token_str B)"
    unfolding slice_all by blast
  have c0: "change_block A B 0 0 0 0 = Inr []"
    by (simp add: change_block_def err_bind_def join_empty classify_def)
  have c1: "change_block A B (length A) (length A) (length A) (length A) = Inr []"
    using assms(3) by (simp add: change_block_def err_bind_def join_empty classify_def)
  have cm: "common_block A B 0 0 (length A) = Inr [\<lparr>op = Op_c, lhs = x, rhs = y\<rparr>]"
    using x(1) y(1) nA unfolding assms(3) [symmetric] by (simp add: common_block_def err_bind_def)
  have c2: "common_block A B (length A) (length A) 0 = Inr []"
    by (simp add: common_block_def)
  have r: "blocks_loop A B 0 0 [(0, 0, length A), (length A, length A, 0)]
      = Inr [\<lparr>op = Op_c, lhs = x, rhs = y\<rparr>]"
    by (simp add: c0 c1 cm c2 err_bind_def)
  show ?thesis
    by (rule exI [of _ x], rule exI [of _ y]) (simp only: r x y simp_thms)
qed

lemma blocks_equal_words:
  assumes "map f (Tokenizer a boundary) = map f (Tokenizer b boundary)"
    and d: "self = \<lparr>atoks = Tokenizer a boundary, btoks = Tokenizer b boundary,
        seqm_a = map f (Tokenizer a boundary), seqm_b = map f (Tokenizer b boundary)\<rparr>"
  shows "if Tokenizer a boundary = [] then blocks self = Inr []
     else (\<exists>x y. blocks self = Inr [\<lparr>op = Op_c, lhs = x, rhs = y\<rparr>]
        \<and> Token_str x = concat (map Token_str (Tokenizer a boundary))
        \<and> Token_str y = concat (map Token_str (Tokenizer b boundary))
        \<and> join (Tokenizer a boundary) 0 (length (Tokenizer a boundary)) = Inr (Some x)
        \<and> join (Tokenizer b boundary) 0 (length (Tokenizer b boundary)) = Inr (Some y))"
proof -
  let ?A = "Tokenizer a boundary" and ?B = "Tokenizer b boundary"
  have len: "length ?A = length ?B" using arg_cong [OF assms(1), of length] by simp
  have i: "idx_ok ?A" "idx_ok ?B" by (simp_all add: idx_ok_def Tokenizer_idx)
  have "get_matching_blocks (seqm_a self) (seqm_b self)
      = get_matching_blocks (map f ?A) (map f ?A)"
    unfolding d using assms(1) by simp
  also have "\<dots> = (if ?A = [] then [(0, 0, 0)] else [(0, 0, length ?A), (length ?A, length ?A, 0)])"
    by (simp only: get_matching_blocks_self length_map map_is_Nil_conv)
  finally have g: "get_matching_blocks (seqm_a self) (seqm_b self) =
     (if ?A = [] then [(0, 0, 0)] else [(0, 0, length ?A), (length ?A, length ?A, 0)])" .
  show ?thesis
  proof (cases "?A = []")
    case True
    with len have "?B = []" by simp
    with True g show ?thesis
      by (simp add: blocks_def d change_block_def common_block_def err_bind_def join_def
            classify_def)
  next
    case False
    from blocks_loop_equal_words [OF i len False] False g show ?thesis
      by (simp add: blocks_def d)
  qed
qed

lemma Differ_init_eq:
  "Differ_init a b boundary ignore_case =
     \<lparr>atoks = Tokenizer a boundary, btoks = Tokenizer b boundary,
      seqm_a = map (\<lambda>t. (if ignore_case then str_lower else (\<lambda>s. s)) (word t)) (Tokenizer a boundary),
      seqm_b = map (\<lambda>t. (if ignore_case then str_lower else (\<lambda>s. s)) (word t)) (Tokenizer b boundary)\<rparr>"
  by (simp add: Differ_init_def Let_def)

lemma isplit_loop_empty: "matches_from 0 0 ms \<Longrightarrow> isplit_loop [] 0 ms = [[]]"
proof (induction ms)
  case Nil
  then show ?case by simp
next
  case (Cons m ms)
  then have "fst m = snd m \<and> snd m = 0" "matches_from 0 0 ms" by auto
  with Cons.IH show ?case by simp
qed

lemma Tokenizer_empty: "matches_ok boundary [] \<Longrightarrow> Tokenizer [] boundary = []"
  by (simp add: Tokenizer_def isplit_def matches_ok_def isplit_loop_empty even_up_def)

lemma Tokenizer_nonempty:
  assumes "matches_ok boundary s" "s \<noteq> []"
  shows "Tokenizer s boundary \<noteq> []"
proof
  assume "Tokenizer s boundary = []"
  with Tokenizer_str [OF assms(1)] assms(2) show False by simp
qed

lemma blocks_self:
  assumes "matches_ok boundary s"
  shows "if s = [] then blocks (Differ_init s s boundary ignore_case) = Inr []
     else (\<exists>t. blocks (Differ_init s s boundary ignore_case)
                 = Inr [\<lparr>op = Op_c, lhs = t, rhs = t\<rparr>] \<and> Token_str t = s)"
proof (cases "s = []")
  case True
  with blocks_equal_words [OF refl Differ_init_eq, of s boundary ignore_case] assms
  show ?thesis by (simp add: Tokenizer_empty)
next
  case False
  with blocks_equal_words [OF refl Differ_init_eq, of s boundary ignore_case]
    Tokenizer_nonempty [OF assms False] Tokenizer_str [OF assms]
  show ?thesis by auto
qed


lemma newline_matches_from: "matches_from (pos + length cs) pos (newline_matches pos cs)"
proof (induction cs arbitrary: pos)
  case Nil
  then show ?case by simp
next
  case (Cons ch cs)
  have mono: "\<And>p q ms. matches_from (pos + length (ch # cs)) p ms \<Longrightarrow> q \<le> p \<Longrightarrow>
      matches_from (pos + length (ch # cs)) q ms"
    subgoal for p q ms by (cases ms) auto
    done
  from Cons [of "Suc pos"] have "matches_from (pos + length (ch # cs)) (Suc pos) (newline_matches (Suc pos) cs)"
    by simp
  then show ?case using mono [of "Suc pos" _ pos] by auto
qed

lemma newline_regex_ok: "matches_ok newline_regex s"
  using newline_matches_from [of 0 s] by (simp add: matches_ok_def newline_regex_def)

lemma LineDiffer_init_self:
  assumes "matches_ok boundary s"
  shows "LineDiffer_init s s boundary reverse ignore_case
           = Inr (Differ_init s s newline_regex ignore_case)"
proof (cases "source boundary = newline_source")
  case True
  then show ?thesis by (simp add: LineDiffer_init_def)
next
  case False
  show ?thesis
  proof (cases "s = []")
    case True
    with blocks_self [OF assms, of ignore_case] False show ?thesis
      by (simp add: LineDiffer_init_def err_bind_def)
  next
    case ne: False
    with blocks_self [OF assms, of ignore_case] obtain t where
      "blocks (Differ_init s s boundary ignore_case) = Inr [\<lparr>op = Op_c, lhs = t, rhs = t\<rparr>]"
      "Token_str t = s" by auto
    with False show ?thesis
      by (simp add: LineDiffer_init_def err_bind_def reduce_block_def)
  qed
qed

lemma context_blocks_of_self:
  "context_blocks_of ctx [] = Inr []"
  "context_blocks_of ctx [\<lparr>op = Op_c, lhs = t, rhs = u\<rparr>] = Inr []"
  by (simp_all add: context_blocks_of_def)

lemma line_renderers_self:
  assumes "matches_ok boundary s"
  shows "err_bind (NormalDiffer_init s s boundary reverse ignore_case) NormalDiffer_get_diff = Inr []"
    and "err_bind (ContextDiffer_init s s boundary ctx reverse ignore_case) ContextDiffer_get_diff = Inr []"
    and "err_bind (ContextDiffer_init s s boundary ctx reverse ignore_case) UnifiedDiffer_get_diff = Inr []"
proof -
  let ?d = "Differ_init s s newline_regex ignore_case"
  from blocks_self [OF newline_regex_ok, of s ignore_case]
  have b: "blocks ?d = Inr [] \<or> (\<exists>t. blocks ?d = Inr [\<lparr>op = Op_c, lhs = t, rhs = t\<rparr>])"
    by (cases "s = []") auto
  then show "err_bind (NormalDiffer_init s s boundary reverse ignore_case) NormalDiffer_get_diff = Inr []"
    by (auto simp: NormalDiffer_init_def LineDiffer_init_self [OF assms] err_bind_def
          NormalDiffer_get_diff_def NormalDiffer_hunks_def)
  have t: "Differ.truncate (Differ.extend ?d (ContextDiffer.fields ctx)) = ?d"
    by (simp add: Differ.truncate_def Differ.extend_def ContextDiffer.fields_def Differ_init_eq)
  have c: "context_size (Differ.extend ?d (ContextDiffer.fields ctx)) = ctx"
    by (simp add: Differ.extend_def ContextDiffer.fields_def Differ_init_eq)
  from b have cb: "context_blocks (Differ.extend ?d (ContextDiffer.fields ctx)) = Inr []"
    by (auto simp: context_blocks_def t c err_bind_def context_blocks_of_self)
  show "err_bind (ContextDiffer_init s s boundary ctx reverse ignore_case) ContextDiffer_get_diff = Inr []"
    by (simp add: ContextDiffer_init_def LineDiffer_init_self [OF assms] err_bind_def
          ContextDiffer_get_diff_def ContextDiffer_hunks_def cb)
  show "err_bind (ContextDiffer_init s s boundary ctx reverse ignore_case) UnifiedDiffer_get_diff = Inr []"
    by (simp add: ContextDiffer_init_def LineDiffer_init_self [OF assms] err_bind_def
          UnifiedDiffer_get_diff_def UnifiedDiffer_hunks_def cb)
qed

lemma WordDiffer_blocks:
  "blocks (Differ.truncate (WordDiffer_init a b boundary sd ed si ei ignore_case))
     = blocks (Differ_init a b boundary ignore_case)"
  by (simp add: WordDiffer_init_def Differ.truncate_def Differ.extend_def WordDiffer.fields_def
        Differ_init_eq)

lemma word_diff_equal_words:
  assumes "matches_ok boundary a"
    and "seqm_a (Differ_init a b boundary ignore_case) = seqm_b (Differ_init a b boundary ignore_case)"
  shows "WordDiffer_get_diff (WordDiffer_init a b boundary sd ed si ei ignore_case) = Inr a"
proof -
  let ?f = "\<lambda>t. (if ignore_case then str_lower else (\<lambda>s. s)) (word t)"
  from assms(2) have e: "map ?f (Tokenizer a boundary) = map ?f (Tokenizer b boundary)"
    by (simp add: Differ_init_eq)
  note bl = blocks_equal_words [OF e Differ_init_eq]
  show ?thesis
  proof (cases "Tokenizer a boundary = []")
    case True
    with Tokenizer_str [OF assms(1)] have "a = []" by simp
    with True bl show ?thesis
      by (simp add: WordDiffer_get_diff_def WordDiffer_blocks err_bind_def)
  next
    case False
    with bl obtain x y where
      "blocks (Differ_init a b boundary ignore_case) = Inr [\<lparr>op = Op_c, lhs = x, rhs = y\<rparr>]"
      "Token_str x = concat (map Token_str (Tokenizer a boundary))" by auto
    with Tokenizer_str [OF assms(1)] show ?thesis
      by (simp add: WordDiffer_get_diff_def WordDiffer_blocks err_bind_def WordDiffer_hunk_def
            Token_str_def)
  qed
qed

text \<open>
  C3. Diffing a string against itself gives exactly one common block covering the input
  and an empty rendered diff in every style. Two parts fail: the empty input has no block
  at all, and the word diff of a string against itself is the string, not the empty
  string.
\<close>

theorem self_diff_counterexample:
  "WordDiffer_get_diff (WordDiffer_init ''a'' ''a'' blank_regex ''[-'' ''-]'' ''{+'' ''+}'' False)
     = Inr ''a''
   \<and> blocks (Differ_init [] [] blank_regex False) = Inr []"
  by code_simp

text \<open>
  C3, amended. Diffing a non-empty string against itself gives exactly one block, a
  common one whose two sides are the same token spelling the whole input; the empty
  input gives no block. The Normal, Context and Unified renderings are empty, for every
  context size and either separator preference, and the word diff is the input itself.
\<close>

theorem self_diff:
  assumes "matches_ok boundary s"
  shows "(if s = [] then blocks (Differ_init s s boundary ignore_case) = Inr []
          else (\<exists>t. blocks (Differ_init s s boundary ignore_case)
                       = Inr [\<lparr>op = Op_c, lhs = t, rhs = t\<rparr>] \<and> word t @ sep t = s))
     \<and> err_bind (NormalDiffer_init s s boundary reverse ignore_case) NormalDiffer_get_diff = Inr []
     \<and> err_bind (ContextDiffer_init s s boundary ctx reverse ignore_case) ContextDiffer_get_diff
         = Inr []
     \<and> err_bind (ContextDiffer_init s s boundary ctx reverse ignore_case) UnifiedDiffer_get_diff
         = Inr []
     \<and> WordDiffer_get_diff (WordDiffer_init s s boundary sd ed si ei ignore_case) = Inr s"
proof (intro conjI)
  from blocks_self [OF assms, of ignore_case]
  show "if s = [] then blocks (Differ_init s s boundary ignore_case) = Inr []
        else (\<exists>t. blocks (Differ_init s s boundary ignore_case)
                     = Inr [\<lparr>op = Op_c, lhs = t, rhs = t\<rparr>] \<and> word t @ sep t = s)"
    by (cases "s = []") (auto simp: Token_str_def)
  show "WordDiffer_get_diff (WordDiffer_init s s boundary sd ed si ei ignore_case) = Inr s"
    by (rule word_diff_equal_words [OF assms]) (simp add: Differ_init_eq)
qed (rule line_renderers_self [OF assms])+

theorem self_diff_witness:
  "matches_ok blank_regex ''a b''
   \<and> (\<exists>t. blocks (Differ_init ''a b'' ''a b'' blank_regex False)
             = Inr [\<lparr>op = Op_c, lhs = t, rhs = t\<rparr>] \<and> word t @ sep t = ''a b'')
   \<and> err_bind (NormalDiffer_init ''a b'' ''a b'' blank_regex False False) NormalDiffer_get_diff
       = Inr []
   \<and> err_bind (ContextDiffer_init ''a b'' ''a b'' blank_regex 3 False False) ContextDiffer_get_diff
       = Inr []
   \<and> err_bind (ContextDiffer_init ''a b'' ''a b'' blank_regex 3 False False) UnifiedDiffer_get_diff
       = Inr []
   \<and> WordDiffer_get_diff (WordDiffer_init ''a b'' ''a b'' blank_regex ''[-'' ''-]'' ''{+'' ''+}'' False)
       = Inr ''a b''"
proof -
  have m: "matches_ok blank_regex ''a b''" by (simp add: matches_ok_def blank_regex_def)
  from m self_diff [OF m, of False False 3 "''[-''" "''-]''" "''{+''" "''+}''"]
  show ?thesis by simp
qed

section \<open>Common blocks in the word diff\<close>

text \<open>
  C10. For a common block the word-diff renderer emits the text of the left side,
  \<open>lhs.word + lhs.sep\<close>. Hence, when the two inputs have the same words (the words the
  matcher compares) and differ in separators only, the word diff is the left input.
\<close>

theorem word_diff_common_is_left:
  assumes "matches_ok boundary a"
    and "seqm_a (Differ_init a b boundary ignore_case) = seqm_b (Differ_init a b boundary ignore_case)"
  shows "WordDiffer_hunk self \<lparr>op = Op_c, lhs = l, rhs = r\<rparr> = word l @ sep l
     \<and> WordDiffer_get_diff (WordDiffer_init a b boundary sd ed si ei ignore_case) = Inr a"
  using word_diff_equal_words [OF assms] by (simp add: WordDiffer_hunk_def)

text \<open>
  The witness: the lines \<open>x\<close> and \<open>y\<close> without and with a final newline.
\<close>

theorem word_diff_common_is_left_witness:
  "matches_ok newline_regex (''x'' @ [NL] @ ''y'')
   \<and> seqm_a (Differ_init (''x'' @ [NL] @ ''y'') (''x'' @ [NL] @ ''y'' @ [NL]) newline_regex False)
     = seqm_b (Differ_init (''x'' @ [NL] @ ''y'') (''x'' @ [NL] @ ''y'' @ [NL]) newline_regex False)
   \<and> WordDiffer_get_diff (WordDiffer_init (''x'' @ [NL] @ ''y'') (''x'' @ [NL] @ ''y'' @ [NL])
        newline_regex ''[-'' ''-]'' ''{+'' ''+}'' False) = Inr (''x'' @ [NL] @ ''y'')"
proof -
  have m: "matches_ok newline_regex (''x'' @ [NL] @ ''y'')" by (rule newline_regex_ok)
  have e: "seqm_a (Differ_init (''x'' @ [NL] @ ''y'') (''x'' @ [NL] @ ''y'' @ [NL]) newline_regex False)
     = seqm_b (Differ_init (''x'' @ [NL] @ ''y'') (''x'' @ [NL] @ ''y'' @ [NL]) newline_regex False)"
    by code_simp
  from m e word_diff_common_is_left [OF m e, of _ _ _ "''[-''" "''-]''" "''{+''" "''+}''"]
  show ?thesis by simp
qed

section \<open>Swapping the two inputs\<close>

text \<open>
  \<open>swap_delta\<close> exchanges the two sides of a block and the labels left-only and
  right-only; \<open>swap_blocks\<close> does so in a result of \<open>Differ.blocks\<close>. \<open>mirror\<close> exchanges
  the two positions of a matching block.
\<close>

definition swap_op :: "op_kind \<Rightarrow> op_kind" where
  "swap_op k = (case k of Op_c \<Rightarrow> Op_c | Op_l \<Rightarrow> Op_r | Op_r \<Rightarrow> Op_l | Op_d \<Rightarrow> Op_d)"

definition swap_delta :: "Delta \<Rightarrow> Delta" where
  "swap_delta d = \<lparr>op = swap_op (op d), lhs = rhs d, rhs = lhs d\<rparr>"

definition swap_blocks :: "error + Delta list \<Rightarrow> error + Delta list" where
  "swap_blocks r = (case r of Inl e \<Rightarrow> Inl e | Inr ds \<Rightarrow> Inr (map swap_delta ds))"

fun mirror :: "nat \<times> nat \<times> nat \<Rightarrow> nat \<times> nat \<times> nat" where
  "mirror (i, j, n) = (j, i, n)"

lemma join_error: "join ts f l = Inl e \<Longrightarrow> e = AssertionError"
  by (auto simp: join_def split: if_splits)

lemma change_block_swap:
  "swap_blocks (change_block A B ci cj i j) = change_block B A cj ci j i"
proof (cases "join A ci i")
  case (Inl e)
  then have e: "e = AssertionError" by (rule join_error)
  show ?thesis
  proof (cases "join B cj j")
    case (Inl e')
    with join_error [OF this] \<open>join A ci i = Inl e\<close> e show ?thesis
      by (simp add: change_block_def err_bind_def swap_blocks_def)
  next
    case (Inr r)
    with \<open>join A ci i = Inl e\<close> show ?thesis
      by (simp add: change_block_def err_bind_def swap_blocks_def)
  qed
next
  case (Inr l)
  show ?thesis
  proof (cases "join B cj j")
    case (Inl e')
    with Inr show ?thesis
      by (simp add: change_block_def err_bind_def swap_blocks_def)
  next
    case r: (Inr r)
    with Inr show ?thesis
      by (cases l; cases r)
         (simp_all add: change_block_def err_bind_def swap_blocks_def classify_def or_token_def
            swap_delta_def swap_op_def)
  qed
qed

lemma common_block_swap:
  "swap_blocks (common_block A B i j n) = common_block B A j i n"
proof (cases "join A i (i + n)")
  case (Inl e)
  then have e: "e = AssertionError" by (rule join_error)
  show ?thesis
  proof (cases "join B j (j + n)")
    case (Inl e')
    with join_error [OF this] \<open>join A i (i + n) = Inl e\<close> e show ?thesis
      by (simp add: common_block_def err_bind_def swap_blocks_def)
  next
    case (Inr r)
    with \<open>join A i (i + n) = Inl e\<close> show ?thesis
      by (simp add: common_block_def err_bind_def swap_blocks_def)
  qed
next
  case (Inr l)
  show ?thesis
  proof (cases "join B j (j + n)")
    case (Inl e')
    with Inr show ?thesis
      by (simp add: common_block_def err_bind_def swap_blocks_def)
  next
    case r: (Inr r)
    with Inr show ?thesis
      by (cases l; cases r)
         (simp_all add: common_block_def err_bind_def swap_blocks_def swap_delta_def swap_op_def)
  qed
qed

text \<open>
  C4. Swapping the sides and the labels left-only and right-only in the alignment of
  \<open>(a, b)\<close> gives the alignment of \<open>(b, a)\<close>. It fails for \<open>x y\<close> against \<open>y x\<close>: among
  matches of equal length the matcher takes the one that starts earliest in its first
  sequence, so it keeps \<open>x\<close> in one order of the inputs and \<open>y\<close> in the other.
\<close>

theorem blocks_swap_counterexample:
  "swap_blocks (blocks (Differ_init ''x y'' ''y x'' blank_regex False))
     \<noteq> blocks (Differ_init ''y x'' ''x y'' blank_regex False)"
  by code_simp

text \<open>
  C4, amended. For every pair of token lists and every list of matching blocks
  \<open>(i, j, n)\<close>, the blocks that \<open>Differ.blocks\<close> builds from them, with the sides swapped
  and the labels left-only and right-only exchanged, are exactly the blocks it builds
  for the swapped token lists from the mirrored matching blocks \<open>(j, i, n)\<close>, an
  assertion failure included. The alignment of swapped inputs can thus differ only
  through the matching blocks the matcher picks.
\<close>

theorem blocks_swap:
  "swap_blocks (blocks_loop A B ci cj mbs) = blocks_loop B A cj ci (map mirror mbs)"
proof (induction A B ci cj mbs rule: blocks_loop.induct)
  case (1 A B curi curj)
  then show ?case by (simp add: swap_blocks_def)
next
  case (2 A B curi curj i j n rest)
  have ch: "swap_blocks (change_block A B curi curj i j) = change_block B A curj curi j i"
    by (rule change_block_swap)
  have cm: "swap_blocks (common_block A B i j n) = common_block B A j i n"
    by (rule common_block_swap)
  show ?case
  proof (cases "change_block A B curi curj i j")
    case (Inl e)
    with ch have "change_block B A curj curi j i = Inl e" by (simp add: swap_blocks_def)
    with Inl show ?thesis by (simp add: err_bind_def swap_blocks_def)
  next
    case c1: (Inr change)
    with ch have c1': "change_block B A curj curi j i = Inr (map swap_delta change)"
      by (simp add: swap_blocks_def)
    show ?thesis
    proof (cases "common_block A B i j n")
      case (Inl e)
      with cm have "common_block B A j i n = Inl e" by (simp add: swap_blocks_def)
      with Inl c1 c1' show ?thesis by (simp add: err_bind_def swap_blocks_def)
    next
      case c2: (Inr common)
      with cm have c2': "common_block B A j i n = Inr (map swap_delta common)"
        by (simp add: swap_blocks_def)
      note ih = "2.IH" [OF c1 c2]
      show ?thesis
      proof (cases "blocks_loop A B (i + n) (j + n) rest")
        case (Inl e)
        with ih have "blocks_loop B A (j + n) (i + n) (map mirror rest) = Inl e"
          by (simp add: swap_blocks_def)
        with Inl c1 c1' c2 c2' show ?thesis by (simp add: err_bind_def swap_blocks_def)
      next
        case (Inr ds)
        with ih have "blocks_loop B A (j + n) (i + n) (map mirror rest) = Inr (map swap_delta ds)"
          by (simp add: swap_blocks_def)
        with Inr c1 c1' c2 c2' show ?thesis by (simp add: err_bind_def swap_blocks_def)
      qed
    qed
  qed
qed

text \<open>
  An instance with a left-only block: for \<open>a b c\<close> against \<open>a c\<close> the matcher reports
  mirrored blocks for the swapped inputs, and the deleted word \<open>b\<close> with its placeholder
  becomes the inserted word \<open>b\<close> of the swapped alignment.
\<close>

theorem blocks_swap_witness:
  "blocks (Differ_init ''a b c'' ''a c'' blank_regex False)
     = Inr [\<lparr>op = Op_c, lhs = \<lparr>word = ''a'', sep = '' '', idx = 0\<rparr>,
                          rhs = \<lparr>word = ''a'', sep = '' '', idx = 0\<rparr>\<rparr>,
            \<lparr>op = Op_l, lhs = \<lparr>word = ''b'', sep = '' '', idx = 1\<rparr>,
                          rhs = \<lparr>word = [], sep = [], idx = 0\<rparr>\<rparr>,
            \<lparr>op = Op_c, lhs = \<lparr>word = ''c'', sep = [], idx = 2\<rparr>,
                          rhs = \<lparr>word = ''c'', sep = [], idx = 1\<rparr>\<rparr>]
   \<and> swap_blocks (blocks (Differ_init ''a b c'' ''a c'' blank_regex False))
     = blocks (Differ_init ''a c'' ''a b c'' blank_regex False)"
proof
  show "blocks (Differ_init ''a b c'' ''a c'' blank_regex False)
     = Inr [\<lparr>op = Op_c, lhs = \<lparr>word = ''a'', sep = '' '', idx = 0\<rparr>,
                          rhs = \<lparr>word = ''a'', sep = '' '', idx = 0\<rparr>\<rparr>,
            \<lparr>op = Op_l, lhs = \<lparr>word = ''b'', sep = '' '', idx = 1\<rparr>,
                          rhs = \<lparr>word = [], sep = [], idx = 0\<rparr>\<rparr>,
            \<lparr>op = Op_c, lhs = \<lparr>word = ''c'', sep = [], idx = 2\<rparr>,
                          rhs = \<lparr>word = ''c'', sep = [], idx = 1\<rparr>\<rparr>]"
    by code_simp
  have m: "get_matching_blocks (seqm_b (Differ_init ''a b c'' ''a c'' blank_regex False))
             (seqm_a (Differ_init ''a b c'' ''a c'' blank_regex False))
           = map mirror (get_matching_blocks (seqm_a (Differ_init ''a b c'' ''a c'' blank_regex False))
                           (seqm_b (Differ_init ''a b c'' ''a c'' blank_regex False)))"
    by code_simp
  show "swap_blocks (blocks (Differ_init ''a b c'' ''a c'' blank_regex False))
     = blocks (Differ_init ''a c'' ''a b c'' blank_regex False)"
    using m blocks_swap [of "Tokenizer ''a b c'' blank_regex" "Tokenizer ''a c'' blank_regex" 0 0]
    by (simp add: blocks_def Differ_init_eq)
qed

section \<open>Hunks with no context\<close>

text \<open>
  C5. A common block of more than \<open>2 * C\<close> lines between two changes ends the hunk,
  which keeps exactly \<open>C\<close> of its lines as trailing context, and the next hunk takes at
  most \<open>C\<close> of its lines as leading context. With \<open>C = 0\<close> and the one common line \<open>b\<close>
  between two changed lines, the first hunk ends with an empty context line and the
  second starts with the context line \<open>b\<close>, counted as line 3.
\<close>

theorem context_zero_keeps_context:
  "err_bind (ContextDiffer_init
       (''a'' @ [NL] @ ''b'' @ [NL] @ ''c'' @ [NL])
       (''X'' @ [NL] @ ''b'' @ [NL] @ ''Y'' @ [NL])
       newline_regex 0 False False) context_blocks
   = Inr [[\<lparr>op = Op_d, lhs = \<lparr>word = ''a'', sep = [NL], idx = 0\<rparr>,
                        rhs = \<lparr>word = ''X'', sep = [NL], idx = 0\<rparr>\<rparr>,
           \<lparr>op = Op_c, lhs = \<lparr>word = [], sep = [NL], idx = 1\<rparr>,
                        rhs = \<lparr>word = [], sep = [NL], idx = 1\<rparr>\<rparr>],
          [\<lparr>op = Op_c, lhs = \<lparr>word = ''b'', sep = [NL], idx = 2\<rparr>,
                        rhs = \<lparr>word = ''b'', sep = [NL], idx = 2\<rparr>\<rparr>,
           \<lparr>op = Op_d, lhs = \<lparr>word = ''c'', sep = [NL], idx = 2\<rparr>,
                        rhs = \<lparr>word = ''Y'', sep = [NL], idx = 2\<rparr>\<rparr>]]
   \<and> err_bind (ContextDiffer_init
       (''a'' @ [NL] @ ''b'' @ [NL] @ ''c'' @ [NL])
       (''X'' @ [NL] @ ''b'' @ [NL] @ ''Y'' @ [NL])
       newline_regex 0 False False) UnifiedDiffer_hunks
   = Inr [''@@ -1,2 +1,2 @@'' @ [NL] @ ''-a'' @ [NL] @ ''+X'' @ [NL] @ '' '' @ [NL],
          ''@@ -3,2 +3,2 @@'' @ [NL] @ '' b'' @ [NL] @ ''-c'' @ [NL] @ ''+Y'' @ [NL]]"
  by code_simp

section \<open>The truth value of a token\<close>

text \<open>
  C8. A token is false exactly if its word and its separator are both empty. This is
  what \<open>Token.__nonzero__\<close> computes, but not the truth value of a token: the placeholder
  token \<open>Token("", "", 0)\<close>, made for the absent side of a delta, is true.
\<close>

theorem placeholder_token_is_true:
  "Token_bool \<lparr>word = [], sep = [], idx = 0\<rparr>
   \<and> \<not> Token_nonzero \<lparr>word = [], sep = [], idx = 0\<rparr>"
  by (simp add: Token_bool_def Token_len_def Token_nonzero_def)

section \<open>The Normal renderer on a block with one side absent\<close>

text \<open>
  C7. For a block that is not common, the Normal renderer emits the \<open><\<close> lines only if
  the left token is present, the \<open>---\<close> line only if both tokens are present and the
  \<open>>\<close> lines only if the right token is present. The code tests \<open>if b.lhs:\<close> and
  \<open>if b.rhs:\<close>, and the placeholder of the absent side is true: deleting the line \<open>b\<close>
  from \<open>a, b, c\<close> gives, after \<open>2d1\<close> and \<open>< b\<close>, a \<open>---\<close> line and a \<open>>\<close> line.
\<close>

theorem normal_delete_renders_absent_side:
  "err_bind (NormalDiffer_init
       (''a'' @ [NL] @ ''b'' @ [NL] @ ''c'' @ [NL])
       (''a'' @ [NL] @ ''c'' @ [NL])
       newline_regex False False) NormalDiffer_hunks
   = Inr [''2d1'' @ [NL] @ ''< b'' @ [NL] @ ''---'' @ [NL]
            @ ''> '' @ [NL] @ [CHR 0x5C] @ '' No newline at end of file'' @ [NL]]"
  by code_simp

section \<open>Scenarios\<close>

text \<open>
  C6. The unified diff with one line of context of the lines 1, 2, 3, 4, 5 against the
  lines 1, 2, X, 4, 5 is one hunk: the header \<open>@@ -2,3 +2,3 @@\<close> and the lines
  \<open> 2\<close>, \<open>-3\<close>, \<open>+X\<close>, \<open> 4\<close>.
\<close>

theorem unified_scenario_4:
  "err_bind (ContextDiffer_init
       (''1'' @ [NL] @ ''2'' @ [NL] @ ''3'' @ [NL] @ ''4'' @ [NL] @ ''5'' @ [NL])
       (''1'' @ [NL] @ ''2'' @ [NL] @ ''X'' @ [NL] @ ''4'' @ [NL] @ ''5'' @ [NL])
       newline_regex 1 False False) UnifiedDiffer_hunks
   = Inr [''@@ -2,3 +2,3 @@'' @ [NL] @ '' 2'' @ [NL] @ ''-3'' @ [NL] @ ''+X'' @ [NL]
            @ '' 4'' @ [NL]]"
  by code_simp

end
